theory Spec2Isabelle
  imports Main
begin

section \<open>Net records and the object store\<close>

text \<open>
  The registry \<open>NETINFO_LIST\<close> of \<open>pcbnew/netinfo_list.cpp\<close> holds pointers to
  \<open>NETINFO_ITEM\<close> objects, compares them by address (\<open>RemoveNet\<close>) and writes through them
  (\<open>AppendNet\<close>). The model therefore has an explicit store: an address is a natural number
  and the store maps every address to the object that lives there. Only the three fields this
  file reads or writes are kept; the accessors \<open>GetNetCode()\<close>, \<open>GetNetname()\<close> and
  \<open>IsCurrent()\<close> of \<open>netinfo.h\<close> are read as the fields \<open>m_netCode\<close>, \<open>m_netname\<close> and
  \<open>m_isCurrent\<close>. C++ \<open>int\<close> is modelled by \<open>int\<close>: the model describes the
  executions without signed overflow (which is undefined behaviour in C++), so the scan of
  \<open>getFreeNetCode\<close> is over unbounded integers.
\<close>

type_synonym item_ptr = nat

record NETINFO_ITEM =
  m_netCode :: int
  m_netname :: string
  m_isCurrent :: bool

type_synonym store = "item_ptr \<Rightarrow> NETINFO_ITEM"

text \<open>
  Modelled from the spec: the constructor of \<open>NETINFO_ITEM\<close> is in a file that is not part of
  this development; the spec's state machine starts a record as
  \<open>Active(code assigned, current=true)\<close>.
\<close>

definition NETINFO_ITEM_new :: "string \<Rightarrow> int \<Rightarrow> NETINFO_ITEM" where
  "NETINFO_ITEM_new aNetName aNetCode =
     \<lparr>m_netCode = aNetCode, m_netname = aNetName, m_isCurrent = True\<rparr>"

section \<open>The two index containers\<close>

text \<open>
  \<open>NETCODES_MAP\<close> and \<open>NETNAMES_MAP\<close> are declared in \<open>netinfo.h\<close>; the spec calls them
  \<open>mapping(code \<rightarrow> NET_RECORD)\<close> and \<open>mapping(name \<rightarrow> NET_RECORD)\<close>. Both are modelled as
  association lists in iteration order: the by-code map in ascending key order (it is iterated
  by \<open>RemoveNet\<close> and \<open>RemoveUnusedNets\<close>), the by-name map in insertion order. \<open>insert\<close>
  leaves a map that already has the key as it is, as \<open>std::map::insert\<close> does.
\<close>

type_synonym NETCODES_MAP = "(int \<times> item_ptr) list"
type_synonym NETNAMES_MAP = "(string \<times> item_ptr) list"

definition map_find :: "('k \<times> 'v) list \<Rightarrow> 'k \<Rightarrow> 'v option" where
  "map_find m k = map_of m k"

definition map_count :: "('k \<times> 'v) list \<Rightarrow> 'k \<Rightarrow> nat" where
  "map_count m k = (case map_of m k of None \<Rightarrow> 0 | Some v \<Rightarrow> 1)"

fun NETCODES_insert :: "int \<times> item_ptr \<Rightarrow> NETCODES_MAP \<Rightarrow> NETCODES_MAP" where
  "NETCODES_insert kv [] = [kv]"
| "NETCODES_insert kv (e # es) =
     (if fst kv < fst e then kv # e # es
      else if fst kv = fst e then e # es
      else e # NETCODES_insert kv es)"

fun NETNAMES_insert :: "string \<times> item_ptr \<Rightarrow> NETNAMES_MAP \<Rightarrow> NETNAMES_MAP" where
  "NETNAMES_insert kv [] = [kv]"
| "NETNAMES_insert kv (e # es) =
     (if fst kv = fst e then e # es else e # NETNAMES_insert kv es)"

text \<open>
  The two loops of \<open>RemoveNet\<close>: walk the map, erase the first entry whose value is the
  given pointer and stop. \<open>None\<close> means that the loop ran to the end without a match.
\<close>

fun erase_first :: "item_ptr \<Rightarrow> ('k \<times> item_ptr) list \<Rightarrow> ('k \<times> item_ptr) list option" where
  "erase_first aNet [] = None"
| "erase_first aNet (e # es) =
     (if snd e = aNet then Some es
      else (case erase_first aNet es of None \<Rightarrow> None | Some es' \<Rightarrow> Some (e # es')))"

section \<open>The registry\<close>

record NETINFO_LIST =
  m_netNames :: NETNAMES_MAP
  m_netCodes :: NETCODES_MAP
  m_newNetCode :: int
  m_DisplayNetnamesDirty :: bool

datatype error =
    AssertNameUnique
  | AssertCodeUnique
  | AssertNamesWithoutCodes

definition GetNetItem_code :: "NETINFO_LIST \<Rightarrow> int \<Rightarrow> item_ptr option" where
  "GetNetItem_code L aNetCode = map_find (m_netCodes L) aNetCode"

definition GetNetItem_name :: "NETINFO_LIST \<Rightarrow> string \<Rightarrow> item_ptr option" where
  "GetNetItem_name L aNetName = map_find (m_netNames L) aNetName"

subsection \<open>getFreeNetCode\<close>

text \<open>
  \<^verbatim>\<open>do { if( m_newNetCode < 0 ) m_newNetCode = 0; } while( m_netCodes.count( ++m_newNetCode ) != 0 );\<close>
  The second argument is the value of \<open>m_newNetCode\<close> on entry to the loop body.
\<close>

function getFreeNetCode_loop :: "NETCODES_MAP \<Rightarrow> int \<Rightarrow> int" where
  "getFreeNetCode_loop codes n =
     (if map_count codes ((if n < 0 then 0 else n) + 1) \<noteq> 0
      then getFreeNetCode_loop codes ((if n < 0 then 0 else n) + 1)
      else (if n < 0 then 0 else n) + 1)"
  by pat_completeness auto

termination
proof (relation "measure (\<lambda>(codes, n). length (filter (\<lambda>e. (if n < 0 then 0 else n) < fst e) codes))")
  show "wf (measure (\<lambda>(codes :: NETCODES_MAP, n :: int).
          length (filter (\<lambda>e. (if n < 0 then 0 else n) < fst e) codes)))"
    by simp
next
  fix codes :: NETCODES_MAP and n :: int
  define a where "a = (if n < 0 then 0 else n)"
  assume "map_count codes ((if n < 0 then 0 else n) + 1) \<noteq> 0"
  then have cnt: "map_count codes (a + 1) \<noteq> 0" by (simp add: a_def)
  have "map_of codes (a + 1) \<noteq> None"
    using cnt by (cases "map_of codes (a + 1)") (simp_all add: map_count_def)
  then obtain v where "map_of codes (a + 1) = Some v" by auto
  then have mem: "(a + 1, v) \<in> set codes" by (rule map_of_SomeD)
  have nested: "filter (\<lambda>e. a + 1 < fst e) codes
          = filter (\<lambda>e. a + 1 < fst e) (filter (\<lambda>e. a < fst e) codes)"
    by (induction codes) auto
  have "(a + 1, v) \<in> set (filter (\<lambda>e. a < fst e) codes)" using mem by simp
  moreover have "\<not> a + 1 < fst (a + 1, v)" by simp
  ultimately have "length (filter (\<lambda>e. a + 1 < fst e) (filter (\<lambda>e. a < fst e) codes))
                     < length (filter (\<lambda>e. a < fst e) codes)"
    by (rule length_filter_less)
  with nested have less: "length (filter (\<lambda>e. a + 1 < fst e) codes)
                     < length (filter (\<lambda>e. a < fst e) codes)"
    by simp
  from less show "((codes, (if n < 0 then 0 else n) + 1), (codes, n))
          \<in> measure (\<lambda>(codes, n). length (filter (\<lambda>e. (if n < 0 then 0 else n) < fst e) codes))"
    by (cases "n < 0") (simp_all add: a_def)
qed

declare getFreeNetCode_loop.simps [simp del]

definition getFreeNetCode :: "NETINFO_LIST \<Rightarrow> int \<times> NETINFO_LIST" where
  "getFreeNetCode L =
     (let c = getFreeNetCode_loop (m_netCodes L) (m_newNetCode L)
      in (c, L\<lparr>m_newNetCode := c\<rparr>))"

subsection \<open>AppendNet and the constructor\<close>

text \<open>
  \<open>assert\<close> stops the program when its condition is false; the model returns the error
  instead of a state. The comparison with \<open>(int) m_netCodes.size()\<close> is the comparison with
  the length of the by-code list.
\<close>

fun AppendNet :: "item_ptr \<Rightarrow> store \<times> NETINFO_LIST \<Rightarrow> error + store \<times> NETINFO_LIST" where
  "AppendNet aNewElement (h, L) =
     (case GetNetItem_name L (m_netname (h aNewElement)) of
        Some sameName \<Rightarrow>
          Inr (h(aNewElement := (h aNewElement)\<lparr>m_netCode := m_netCode (h sameName)\<rparr>), L)
      | None \<Rightarrow>
          (let (h1, L1) =
                 (if m_netCode (h aNewElement) \<noteq> int (length (m_netCodes L))
                     \<or> m_netCode (h aNewElement) < 0
                  then (case getFreeNetCode L of
                          (c, L') \<Rightarrow> (h(aNewElement := (h aNewElement)\<lparr>m_netCode := c\<rparr>), L'))
                  else (h, L))
           in if GetNetItem_name L1 (m_netname (h1 aNewElement)) \<noteq> None
                then Inl AssertNameUnique
              else if GetNetItem_code L1 (m_netCode (h1 aNewElement)) \<noteq> None
                then Inl AssertCodeUnique
              else Inr (h1,
                     L1\<lparr>m_netNames :=
                          NETNAMES_insert (m_netname (h1 aNewElement), aNewElement) (m_netNames L1),
                        m_netCodes :=
                          NETCODES_insert (m_netCode (h1 aNewElement), aNewElement) (m_netCodes L1),
                        m_DisplayNetnamesDirty := True\<rparr>)))"

text \<open>
  The constructor: \<open>m_newNetCode( 0 )\<close>, then
  \<open>AppendNet( new NETINFO_ITEM( aParent, wxEmptyString, 0 ) )\<close>. The first argument is the
  address at which \<open>new\<close> places the reserved record. The constructor does not initialise
  \<open>m_DisplayNetnamesDirty\<close>; \<open>AppendNet\<close> sets it on the path taken here.
\<close>

definition NETINFO_LIST_ctor :: "item_ptr \<Rightarrow> store \<Rightarrow> error + store \<times> NETINFO_LIST" where
  "NETINFO_LIST_ctor p0 h =
     AppendNet p0
       (h(p0 := NETINFO_ITEM_new '''' 0),
        \<lparr>m_netNames = [], m_netCodes = [], m_newNetCode = 0, m_DisplayNetnamesDirty = False\<rparr>)"

subsection \<open>RemoveNet\<close>

text \<open>
  A \<open>wxASSERT_MSG\<close> whose condition is false is returned as an error: what the assertion
  handler does next is decided outside this file.
\<close>

definition RemoveNet :: "item_ptr \<Rightarrow> store \<Rightarrow> NETINFO_LIST \<Rightarrow> error + NETINFO_LIST" where
  "RemoveNet aNet h L =
     (let (removed, codes) =
            (case erase_first aNet (m_netCodes L) of
               None \<Rightarrow> (False, m_netCodes L)
             | Some cs \<Rightarrow> (True, cs));
          finish = (\<lambda>L'. if removed
                          then L'\<lparr>m_newNetCode := min (m_newNetCode L') (m_netCode (h aNet) - 1),
                                  m_DisplayNetnamesDirty := True\<rparr>
                          else L')
      in case erase_first aNet (m_netNames L) of
           None \<Rightarrow> Inr (finish (L\<lparr>m_netCodes := codes\<rparr>))
         | Some ns \<Rightarrow>
             if \<not> removed then Inl AssertNamesWithoutCodes
             else Inr (finish (L\<lparr>m_netCodes := codes, m_netNames := ns\<rparr>)))"

subsection \<open>RemoveUnusedNets\<close>

text \<open>
  Modelled from the spec: \<open>BOARD_COMMIT\<close> is declared outside this development; the spec
  gives the sink one operation, \<open>notifyRemoved(record)\<close>, with no return value. A sink is
  modelled by the list of records it has been notified of, in call order; \<open>None\<close> is the
  null pointer \<open>aCommit\<close>.
\<close>

type_synonym commit = "item_ptr list"

fun RemoveUnusedNets_loop ::
  "store \<Rightarrow> NETCODES_MAP \<Rightarrow> NETINFO_LIST \<times> commit option \<Rightarrow> NETINFO_LIST \<times> commit option" where
  "RemoveUnusedNets_loop h [] (L, aCommit) = (L, aCommit)"
| "RemoveUnusedNets_loop h ((netCode, netInfo) # existingNets) (L, aCommit) =
     (if m_isCurrent (h netInfo)
      then RemoveUnusedNets_loop h existingNets
             (L\<lparr>m_netNames := NETNAMES_insert (m_netname (h netInfo), netInfo) (m_netNames L),
                m_netCodes := NETCODES_insert (netCode, netInfo) (m_netCodes L)\<rparr>,
              aCommit)
      else RemoveUnusedNets_loop h existingNets
             (L\<lparr>m_DisplayNetnamesDirty := True\<rparr>,
              (case aCommit of None \<Rightarrow> None | Some removed \<Rightarrow> Some (removed @ [netInfo]))))"

definition RemoveUnusedNets ::
  "store \<Rightarrow> commit option \<Rightarrow> NETINFO_LIST \<Rightarrow> NETINFO_LIST \<times> commit option" where
  "RemoveUnusedNets h aCommit L =
     RemoveUnusedNets_loop h (m_netCodes L) (L\<lparr>m_netCodes := [], m_netNames := []\<rparr>, aCommit)"

section \<open>Sequences of registry operations\<close>

text \<open>
  Modelled from the spec: \<open>NETINFO_ITEM::SetIsCurrent\<close> is declared outside this
  development. The spec's state machine moves a record from \<open>Active(current=true)\<close> to
  \<open>Orphaned(current=false)\<close> "by membership recompute", that is, between two registry
  operations and from outside the registry; \<open>SetIsCurrent\<close> is that step. The other three
  events are the calls of \<open>AppendNet\<close>, \<open>RemoveNet\<close> and \<open>RemoveUnusedNets\<close> (whose
  argument is the sink passed to that call).
\<close>

datatype event =
    Append item_ptr
  | Remove item_ptr
  | Prune "commit option"
  | SetIsCurrent item_ptr bool

fun step :: "event \<Rightarrow> store \<times> NETINFO_LIST \<Rightarrow> error + store \<times> NETINFO_LIST" where
  "step (Append p) (h, L) = AppendNet p (h, L)"
| "step (Remove p) (h, L) =
     (case RemoveNet p h L of Inl e \<Rightarrow> Inl e | Inr L' \<Rightarrow> Inr (h, L'))"
| "step (Prune aCommit) (h, L) = Inr (h, fst (RemoveUnusedNets h aCommit L))"
| "step (SetIsCurrent p b) (h, L) = Inr (h(p := (h p)\<lparr>m_isCurrent := b\<rparr>), L)"

fun run :: "event list \<Rightarrow> store \<times> NETINFO_LIST \<Rightarrow> error + store \<times> NETINFO_LIST" where
  "run [] s = Inr s"
| "run (e # es) s = (case step e s of Inl err \<Rightarrow> Inl err | Inr s' \<Rightarrow> run es s')"

definition run_new :: "item_ptr \<Rightarrow> store \<Rightarrow> event list \<Rightarrow> error + store \<times> NETINFO_LIST" where
  "run_new p0 h es = (case NETINFO_LIST_ctor p0 h of Inl err \<Rightarrow> Inl err | Inr s \<Rightarrow> run es s)"

text \<open>
  The same operations in a build that compiles the assertions out (\<open>NDEBUG\<close> for \<open>assert\<close>,
  and a \<open>wxASSERT_MSG\<close> after which the program goes on): \<open>AppendNet\<close> inserts into both
  indices whatever the two \<open>assert\<close>s would have found, and \<open>std::map::insert\<close> then leaves
  the by-code index as it is when the code is already a key; \<open>RemoveNet\<close> erases the by-name
  entry whether or not a by-code entry was erased. \<open>RemoveUnusedNets\<close> has no assertion. These
  operations always return a state.
\<close>

fun AppendNet_ndebug :: "item_ptr \<Rightarrow> store \<times> NETINFO_LIST \<Rightarrow> store \<times> NETINFO_LIST" where
  "AppendNet_ndebug aNewElement (h, L) =
     (case GetNetItem_name L (m_netname (h aNewElement)) of
        Some sameName \<Rightarrow>
          (h(aNewElement := (h aNewElement)\<lparr>m_netCode := m_netCode (h sameName)\<rparr>), L)
      | None \<Rightarrow>
          (let (h1, L1) =
                 (if m_netCode (h aNewElement) \<noteq> int (length (m_netCodes L))
                     \<or> m_netCode (h aNewElement) < 0
                  then (case getFreeNetCode L of
                          (c, L') \<Rightarrow> (h(aNewElement := (h aNewElement)\<lparr>m_netCode := c\<rparr>), L'))
                  else (h, L))
           in (h1,
               L1\<lparr>m_netNames :=
                    NETNAMES_insert (m_netname (h1 aNewElement), aNewElement) (m_netNames L1),
                  m_netCodes :=
                    NETCODES_insert (m_netCode (h1 aNewElement), aNewElement) (m_netCodes L1),
                  m_DisplayNetnamesDirty := True\<rparr>)))"

definition RemoveNet_ndebug :: "item_ptr \<Rightarrow> store \<Rightarrow> NETINFO_LIST \<Rightarrow> NETINFO_LIST" where
  "RemoveNet_ndebug aNet h L =
     (let (removed, codes) =
            (case erase_first aNet (m_netCodes L) of
               None \<Rightarrow> (False, m_netCodes L)
             | Some cs \<Rightarrow> (True, cs));
          names = (case erase_first aNet (m_netNames L) of
                     None \<Rightarrow> m_netNames L
                   | Some ns \<Rightarrow> ns);
          L' = L\<lparr>m_netCodes := codes, m_netNames := names\<rparr>
      in if removed
         then L'\<lparr>m_newNetCode := min (m_newNetCode L') (m_netCode (h aNet) - 1),
                 m_DisplayNetnamesDirty := True\<rparr>
         else L')"

fun step_ndebug :: "event \<Rightarrow> store \<times> NETINFO_LIST \<Rightarrow> store \<times> NETINFO_LIST" where
  "step_ndebug (Append p) (h, L) = AppendNet_ndebug p (h, L)"
| "step_ndebug (Remove p) (h, L) = (h, RemoveNet_ndebug p h L)"
| "step_ndebug (Prune aCommit) (h, L) = (h, fst (RemoveUnusedNets h aCommit L))"
| "step_ndebug (SetIsCurrent p b) (h, L) = (h(p := (h p)\<lparr>m_isCurrent := b\<rparr>), L)"

fun run_ndebug :: "event list \<Rightarrow> store \<times> NETINFO_LIST \<Rightarrow> store \<times> NETINFO_LIST" where
  "run_ndebug [] s = s"
| "run_ndebug (e # es) s = run_ndebug es (step_ndebug e s)"

definition run_new_ndebug :: "item_ptr \<Rightarrow> store \<Rightarrow> event list \<Rightarrow> store \<times> NETINFO_LIST" where
  "run_new_ndebug p0 h es =
     run_ndebug es
       (AppendNet_ndebug p0
          (h(p0 := NETINFO_ITEM_new '''' 0),
           \<lparr>m_netNames = [], m_netCodes = [], m_newNetCode = 0,
            m_DisplayNetnamesDirty = False\<rparr>))"

section \<open>Properties of a registry state\<close>

text \<open>
  The records of a registry are the objects reachable through either index. A registry state
  is consistent when both lists are maps (no key twice, the by-code map in key order), every
  entry is filed under the code and the name its record holds, no record is filed under two
  codes, and both indices reach the same records (the spec's data model: "two indices over
  the same owned record set; must always agree on membership").
\<close>

definition registry_records :: "NETINFO_LIST \<Rightarrow> item_ptr list" where
  "registry_records L = remdups (map snd (m_netCodes L) @ map snd (m_netNames L))"

definition registry_consistent :: "store \<Rightarrow> NETINFO_LIST \<Rightarrow> bool" where
  "registry_consistent h L \<longleftrightarrow>
     sorted (map fst (m_netCodes L)) \<and>
     distinct (map fst (m_netCodes L)) \<and>
     distinct (map fst (m_netNames L)) \<and>
     distinct (map snd (m_netCodes L)) \<and>
     list_all (\<lambda>(c, p). m_netCode (h p) = c) (m_netCodes L) \<and>
     list_all (\<lambda>(n, p). m_netname (h p) = n) (m_netNames L) \<and>
     set (map snd (m_netNames L)) = set (map snd (m_netCodes L))"

text \<open>
  The invariant of the spec's data model: exactly one record has code 0, that record has the
  empty name, and the (code, name) pairs of the records are pairwise different.
\<close>

definition reserved_invariant :: "store \<Rightarrow> NETINFO_LIST \<Rightarrow> bool" where
  "reserved_invariant h L \<longleftrightarrow>
     length (filter (\<lambda>p. m_netCode (h p) = 0) (registry_records L)) = 1 \<and>
     length (filter (\<lambda>p. m_netCode (h p) = 0 \<and> m_netname (h p) = '''') (registry_records L)) = 1 \<and>
     distinct (map (\<lambda>p. (m_netCode (h p), m_netname (h p))) (registry_records L))"

text \<open>
  The allocation as the spec words it ("scans upward from \<open>max(nextCodeHint, 0)\<close>,
  incrementing, until an unused code is found"), to be compared with \<open>getFreeNetCode\<close>:
  the first candidate is \<open>max(nextCodeHint, 0)\<close> itself. \<open>lowest_free\<close> is the lowest code
  from 0 upwards that the by-code index does not hold.
\<close>

function scan_from :: "NETCODES_MAP \<Rightarrow> int \<Rightarrow> int" where
  "scan_from codes c = (if map_count codes c \<noteq> 0 then scan_from codes (c + 1) else c)"
  by pat_completeness auto
termination
proof (relation "measure (\<lambda>(codes, c). length (filter (\<lambda>e. c \<le> fst e) codes))")
  show "wf (measure (\<lambda>(codes :: NETCODES_MAP, c :: int). length (filter (\<lambda>e. c \<le> fst e) codes)))"
    by simp
next
  fix codes :: NETCODES_MAP and c :: int
  assume cnt: "map_count codes c \<noteq> 0"
  have "map_of codes c \<noteq> None"
    using cnt by (cases "map_of codes c") (simp_all add: map_count_def)
  then obtain v where "map_of codes c = Some v" by auto
  then have mem: "(c, v) \<in> set codes" by (rule map_of_SomeD)
  have nested: "filter (\<lambda>e. c + 1 \<le> fst e) codes
          = filter (\<lambda>e. c + 1 \<le> fst e) (filter (\<lambda>e. c \<le> fst e) codes)"
    by (induction codes) auto
  have "(c, v) \<in> set (filter (\<lambda>e. c \<le> fst e) codes)" using mem by simp
  moreover have "\<not> c + 1 \<le> fst (c, v)" by simp
  ultimately have "length (filter (\<lambda>e. c + 1 \<le> fst e) (filter (\<lambda>e. c \<le> fst e) codes))
                     < length (filter (\<lambda>e. c \<le> fst e) codes)"
    by (rule length_filter_less)
  with nested show "((codes, c + 1), (codes, c))
          \<in> measure (\<lambda>(codes, c). length (filter (\<lambda>e. c \<le> fst e) codes))"
    by simp
qed

declare scan_from.simps [simp del]

definition allocateFreeCode_spec :: "NETINFO_LIST \<Rightarrow> int \<times> NETINFO_LIST" where
  "allocateFreeCode_spec L =
     (let c = scan_from (m_netCodes L) (max (m_newNetCode L) 0)
      in (c, L\<lparr>m_newNetCode := c\<rparr>))"

definition lowest_free :: "NETCODES_MAP \<Rightarrow> int" where
  "lowest_free codes = scan_from codes 0"

section \<open>The remapper\<close>

text \<open>
  \<open>NETINFO_MAPPING::Update\<close> reads the board only through \<open>Zones()\<close>, \<open>Tracks()\<close>,
  \<open>Drawings()\<close>, \<open>Footprints()\<close>, \<open>Pads()\<close>, \<open>Type()\<close> and \<open>GetNetCode()\<close>, all declared
  outside this development. A board is modelled by what these return: a zone, a track and a
  pad by its net code, a footprint by the list of its pads, a drawing by whether its type is
  \<open>PCB_SHAPE_T\<close> (and then its net code).
\<close>

datatype BOARD_ITEM = PCB_SHAPE int | OTHER_DRAWING

record BOARD =
  Zones :: "int list"
  Tracks :: "int list"
  Drawings :: "BOARD_ITEM list"
  Footprints :: "int list list"

text \<open>\<open>std::set<int>::insert\<close> on the set in ascending order.\<close>

fun set_insert :: "int \<Rightarrow> int list \<Rightarrow> int list" where
  "set_insert x [] = [x]"
| "set_insert x (y # ys) =
     (if x < y then x # y # ys else if x = y then y # ys else y # set_insert x ys)"

text \<open>\<open>m_netMapping[net] = v\<close> on the \<open>std::map<int, int>\<close> in ascending key order.\<close>

fun map_assign :: "int \<Rightarrow> int \<Rightarrow> (int \<times> int) list \<Rightarrow> (int \<times> int) list" where
  "map_assign k v [] = [(k, v)]"
| "map_assign k v (e # es) =
     (if k < fst e then (k, v) # e # es
      else if k = fst e then (k, v) # es
      else e # map_assign k v es)"

record NETINFO_MAPPING =
  m_board :: BOARD
  m_netMapping :: "(int \<times> int) list"

definition used_nets :: "BOARD \<Rightarrow> int list" where
  "used_nets b =
     (let nets = set_insert 0 [];
          nets = fold set_insert (Zones b) nets;
          nets = fold set_insert (Tracks b) nets;
          nets = fold (\<lambda>item nets.
                         case item of
                           OTHER_DRAWING \<Rightarrow> nets
                         | PCB_SHAPE c \<Rightarrow> if c > 0 then set_insert c nets else nets)
                      (Drawings b) nets;
          nets = fold (\<lambda>pads nets. fold set_insert pads nets) (Footprints b) nets
      in nets)"

fun assign_codes :: "int list \<Rightarrow> int \<Rightarrow> (int \<times> int) list \<Rightarrow> (int \<times> int) list" where
  "assign_codes [] newNetCode m = m"
| "assign_codes (net # nets) newNetCode m =
     assign_codes nets (newNetCode + 1) (map_assign net newNetCode m)"

definition Update :: "NETINFO_MAPPING \<Rightarrow> NETINFO_MAPPING" where
  "Update M = M\<lparr>m_netMapping := assign_codes (used_nets (m_board M)) 0 []\<rparr>"

definition Translate :: "NETINFO_MAPPING \<Rightarrow> int \<Rightarrow> int" where
  "Translate M aNetCode =
     (case map_find (m_netMapping M) aNetCode of
        Some v \<Rightarrow> v
      | None \<Rightarrow> aNetCode)"

text \<open>The set of net codes that the geometry of a board refers to, as the spec lists it.\<close>

fun shape_codes :: "BOARD_ITEM list \<Rightarrow> int list" where
  "shape_codes [] = []"
| "shape_codes (PCB_SHAPE c # items) = (if c > 0 then c # shape_codes items else shape_codes items)"
| "shape_codes (OTHER_DRAWING # items) = shape_codes items"

definition referenced_codes :: "BOARD \<Rightarrow> int set" where
  "referenced_codes b =
     {0} \<union> set (Zones b) \<union> set (Tracks b) \<union> set (shape_codes (Drawings b))
         \<union> set (concat (Footprints b))"

text \<open>
  The numbering that the spec describes: the codes in ascending order, numbered
  consecutively from a start value.
\<close>

fun number_from :: "int \<Rightarrow> int list \<Rightarrow> (int \<times> int) list" where
  "number_from k [] = []"
| "number_from k (x # xs) = (x, k) # number_from (k + 1) xs"

section \<open>Auxiliary definitions for the statements\<close>

text \<open>
  The code that \<open>AppendNet\<close> gives a record whose name is not registered: a fresh one from
  \<open>getFreeNetCode\<close> when the proposed code is negative or differs from the size of the
  by-code index, the proposed code otherwise.
\<close>

definition chosen_code :: "store \<Rightarrow> NETINFO_LIST \<Rightarrow> item_ptr \<Rightarrow> int" where
  "chosen_code h L p =
     (if m_netCode (h p) \<noteq> int (length (m_netCodes L)) \<or> m_netCode (h p) < 0
      then getFreeNetCode_loop (m_netCodes L) (m_newNetCode L)
      else m_netCode (h p))"

text \<open>
  What every operation keeps of a registry that holds the reserved record at \<open>p0\<close>, with or
  without the assertions: both lists are maps, every by-name entry is filed under the name
  its record holds, no record is filed under two codes, every record of the by-code index is
  also in the by-name index, the reserved record is filed under code 0 and has the empty
  name, and no other record of the by-name index has code 0.
\<close>

definition reserved_kept :: "item_ptr \<Rightarrow> store \<Rightarrow> NETINFO_LIST \<Rightarrow> bool" where
  "reserved_kept p0 h L \<longleftrightarrow>
     sorted (map fst (m_netCodes L)) \<and>
     distinct (map fst (m_netCodes L)) \<and>
     distinct (map fst (m_netNames L)) \<and>
     list_all (\<lambda>(n, p). m_netname (h p) = n) (m_netNames L) \<and>
     distinct (map snd (m_netCodes L)) \<and>
     set (map snd (m_netCodes L)) \<subseteq> set (map snd (m_netNames L)) \<and>
     (0, p0) \<in> set (m_netCodes L) \<and>
     m_netname (h p0) = '''' \<and> m_netCode (h p0) = 0 \<and>
     list_all (\<lambda>(n, p). p = p0 \<or> m_netCode (h p) \<noteq> 0) (m_netNames L)"

text \<open>
  Whether the reserved record is current at every \<open>Prune\<close> of a sequence of events, given
  whether it is current at the start. Only \<open>SetIsCurrent\<close> on the reserved record changes
  its flag.
\<close>

fun reserved_current_at_prunes :: "item_ptr \<Rightarrow> bool \<Rightarrow> event list \<Rightarrow> bool" where
  "reserved_current_at_prunes p0 cur [] = True"
| "reserved_current_at_prunes p0 cur (Prune aCommit # es) =
     (cur \<and> reserved_current_at_prunes p0 cur es)"
| "reserved_current_at_prunes p0 cur (SetIsCurrent p b # es) =
     reserved_current_at_prunes p0 (if p = p0 then b else cur) es"
| "reserved_current_at_prunes p0 cur (Append p # es) = reserved_current_at_prunes p0 cur es"
| "reserved_current_at_prunes p0 cur (Remove p # es) = reserved_current_at_prunes p0 cur es"

text \<open>
  No \<open>Remove\<close> of a run lowers the hint: at every \<open>Remove\<close> step that returns, the hint
  after the step is not below the hint before it.
\<close>

fun removes_keep_hint :: "event list \<Rightarrow> store \<times> NETINFO_LIST \<Rightarrow> bool" where
  "removes_keep_hint [] s = True"
| "removes_keep_hint (e # es) s =
     (case step e s of
        Inl err \<Rightarrow> True
      | Inr s' \<Rightarrow>
          (case e of
             Remove p \<Rightarrow> m_newNetCode (snd s) \<le> m_newNetCode (snd s')
           | _ \<Rightarrow> True)
          \<and> removes_keep_hint es s')"

text \<open>
  The same condition on a run of the operations without assertions.
\<close>

fun removes_keep_hint_ndebug :: "event list \<Rightarrow> store \<times> NETINFO_LIST \<Rightarrow> bool" where
  "removes_keep_hint_ndebug [] s = True"
| "removes_keep_hint_ndebug (e # es) s =
     ((case e of
         Remove p \<Rightarrow> m_newNetCode (snd s) \<le> m_newNetCode (snd (step_ndebug e s))
       | _ \<Rightarrow> True)
      \<and> removes_keep_hint_ndebug es (step_ndebug e s))"

text \<open>
  The codes of a registry are consecutive: the by-code index holds exactly the keys
  \<open>0, \<dots>, n - 1\<close>, and the hint is one of them.
\<close>

definition codes_consecutive :: "store \<Rightarrow> NETINFO_LIST \<Rightarrow> bool" where
  "codes_consecutive h L \<longleftrightarrow>
     registry_consistent h L \<and>
     map fst (m_netCodes L) = map int [0..<length (m_netCodes L)] \<and>
     0 \<le> m_newNetCode L \<and> m_newNetCode L < int (length (m_netCodes L))"

text \<open>
  For the examples: a store in which no address holds a named record yet, and the code that
  a record holds after a run (\<open>None\<close> when the run stopped with an error).
\<close>

definition no_items :: store where
  "no_items = (\<lambda>p. \<lparr>m_netCode = - 1, m_netname = [], m_isCurrent = False\<rparr>)"

definition code_in :: "item_ptr \<Rightarrow> error + store \<times> NETINFO_LIST \<Rightarrow> int option" where
  "code_in p r = (case r of Inl err \<Rightarrow> None | Inr (h, L) \<Rightarrow> Some (m_netCode (h p)))"

definition registry_of :: "error + store \<times> NETINFO_LIST \<Rightarrow> NETINFO_LIST option" where
  "registry_of r = (case r of Inl err \<Rightarrow> None | Inr (h, L) \<Rightarrow> Some L)"

section \<open>Facts about the containers\<close>

lemma map_find_None_iff: "map_find m k = None \<longleftrightarrow> k \<notin> fst ` set m"
  by (simp add: map_find_def map_of_eq_None_iff)

lemma map_find_SomeD: "map_find m k = Some v \<Longrightarrow> (k, v) \<in> set m"
  by (simp add: map_find_def map_of_SomeD)

lemma map_find_unique: "distinct (map fst m) \<Longrightarrow> (k, v) \<in> set m \<Longrightarrow> map_find m k = Some v"
  by (simp add: map_find_def)

lemma map_count_iff: "map_count m k \<noteq> 0 \<longleftrightarrow> k \<in> fst ` set m"
proof (cases "map_of m k")
  case None
  then have "k \<notin> fst ` set m" by (simp add: map_of_eq_None_iff)
  with None show ?thesis by (simp add: map_count_def)
next
  case (Some v)
  then have "(k, v) \<in> set m" by (rule map_of_SomeD)
  then have "k \<in> fst ` set m" by force
  with Some show ?thesis by (simp add: map_count_def)
qed

lemma map_count_zero_iff: "map_count m k = 0 \<longleftrightarrow> k \<notin> fst ` set m"
  using map_count_iff [of m k] by blast

lemma set_NETCODES_insert:
  "fst kv \<notin> fst ` set m \<Longrightarrow> set (NETCODES_insert kv m) = insert kv (set m)"
  by (induction m) auto

lemma length_NETCODES_insert:
  "fst kv \<notin> fst ` set m \<Longrightarrow> length (NETCODES_insert kv m) = Suc (length m)"
  by (induction m) auto

lemma sorted_NETCODES_insert:
  "sorted (map fst m) \<Longrightarrow> fst kv \<notin> fst ` set m \<Longrightarrow> sorted (map fst (NETCODES_insert kv m))"
  by (induction m) (auto simp: set_NETCODES_insert)

lemma distinct_fst_NETCODES_insert:
  "distinct (map fst m) \<Longrightarrow> fst kv \<notin> fst ` set m \<Longrightarrow>
     distinct (map fst (NETCODES_insert kv m))"
  by (induction m) (auto simp: set_NETCODES_insert)

lemma distinct_snd_NETCODES_insert:
  "distinct (map snd m) \<Longrightarrow> fst kv \<notin> fst ` set m \<Longrightarrow> snd kv \<notin> snd ` set m \<Longrightarrow>
     distinct (map snd (NETCODES_insert kv m))"
  by (induction m) (auto simp: set_NETCODES_insert)

lemma NETCODES_insert_last:
  "\<forall>e \<in> set m. fst e < fst kv \<Longrightarrow> NETCODES_insert kv m = m @ [kv]"
  by (induction m) auto

lemma NETNAMES_insert_fresh:
  "fst kv \<notin> fst ` set m \<Longrightarrow> NETNAMES_insert kv m = m @ [kv]"
  by (induction m) auto

lemma erase_first_None_iff: "erase_first a m = None \<longleftrightarrow> a \<notin> snd ` set m"
  by (induction m) (auto split: option.splits)

lemma erase_first_Some:
  "erase_first a m = Some m' \<Longrightarrow>
     \<exists>m1 k m2. m = m1 @ (k, a) # m2 \<and> m' = m1 @ m2 \<and> a \<notin> snd ` set m1"
proof (induction m arbitrary: m')
  case Nil
  then show ?case by simp
next
  case (Cons e es)
  show ?case
  proof (cases "snd e = a")
    case True
    with Cons.prems have "m' = es" by simp
    with True have "e # es = [] @ (fst e, a) # es \<and> m' = [] @ es \<and> a \<notin> snd ` set []"
      by auto
    then show ?thesis by blast
  next
    case False
    with Cons.prems obtain es' where es': "erase_first a es = Some es'" "m' = e # es'"
      by (auto split: option.splits)
    from Cons.IH [OF es'(1)] obtain m1 k m2
      where "es = m1 @ (k, a) # m2" "es' = m1 @ m2" "a \<notin> snd ` set m1" by blast
    with es'(2) False
    have "e # es = (e # m1) @ (k, a) # m2 \<and> m' = (e # m1) @ m2 \<and> a \<notin> snd ` set (e # m1)"
      by auto
    then show ?thesis by blast
  qed
qed


section \<open>Facts about the scan for a free code\<close>

lemma scan_from_spec:
  "c \<le> scan_from codes c \<and> map_count codes (scan_from codes c) = 0
   \<and> (\<forall>k. c \<le> k \<and> k < scan_from codes c \<longrightarrow> map_count codes k \<noteq> 0)"
proof (induction codes c rule: scan_from.induct)
  case (1 codes c)
  show ?case
  proof (cases "map_count codes c \<noteq> 0")
    case True
    then have eq: "scan_from codes c = scan_from codes (c + 1)"
      by (subst scan_from.simps) simp
    from "1.IH" [OF True]
    have ih: "c + 1 \<le> scan_from codes (c + 1)"
      "map_count codes (scan_from codes (c + 1)) = 0"
      "\<And>k. c + 1 \<le> k \<Longrightarrow> k < scan_from codes (c + 1) \<Longrightarrow> map_count codes k \<noteq> 0"
      by auto
    have "\<And>k. c \<le> k \<Longrightarrow> k < scan_from codes (c + 1) \<Longrightarrow> map_count codes k \<noteq> 0"
    proof -
      fix k assume k: "c \<le> k" "k < scan_from codes (c + 1)"
      show "map_count codes k \<noteq> 0"
      proof (cases "k = c")
        case True
        with \<open>map_count codes c \<noteq> 0\<close> show ?thesis by simp
      next
        case False
        with k have "c + 1 \<le> k" by simp
        then show ?thesis using k(2) by (rule ih(3))
      qed
    qed
    with ih(1,2) show ?thesis unfolding eq by auto
  next
    case False
    then have "scan_from codes c = c" by (subst scan_from.simps) simp
    with False show ?thesis by simp
  qed
qed

lemma scan_from_unique:
  assumes "c \<le> r" "map_count codes r = 0"
    and "\<And>k. c \<le> k \<Longrightarrow> k < r \<Longrightarrow> map_count codes k \<noteq> 0"
  shows "scan_from codes c = r"
proof -
  let ?s = "scan_from codes c"
  from scan_from_spec [of c codes]
  have s: "c \<le> ?s" "map_count codes ?s = 0"
    "\<And>k. c \<le> k \<Longrightarrow> k < ?s \<Longrightarrow> map_count codes k \<noteq> 0" by auto
  have "\<not> ?s < r" using assms(3) [of ?s] s(1,2) by auto
  moreover have "\<not> r < ?s" using s(3) [of r] assms(1,2) by auto
  ultimately show ?thesis by simp
qed

lemma getFreeNetCode_loop_scan:
  "getFreeNetCode_loop codes n = scan_from codes (max n 0 + 1)"
proof (induction codes n rule: getFreeNetCode_loop.induct)
  case (1 codes n)
  have a: "(if n < 0 then 0 else n) = max n 0" by simp
  show ?case
  proof (cases "map_count codes (max n 0 + 1) \<noteq> 0")
    case True
    then have "getFreeNetCode_loop codes n = getFreeNetCode_loop codes (max n 0 + 1)"
      by (subst getFreeNetCode_loop.simps) (simp add: a)
    also have "\<dots> = scan_from codes (max (max n 0 + 1) 0 + 1)"
      using "1.IH" True by (simp add: a)
    also have "\<dots> = scan_from codes (max n 0 + 1 + 1)" by simp
    also have "\<dots> = scan_from codes (max n 0 + 1)"
      using True by (subst (2) scan_from.simps) simp
    finally show ?thesis .
  next
    case False
    then have "getFreeNetCode_loop codes n = max n 0 + 1"
      by (subst getFreeNetCode_loop.simps) (simp add: a)
    moreover from False have "scan_from codes (max n 0 + 1) = max n 0 + 1"
      by (subst scan_from.simps) simp
    ultimately show ?thesis by simp
  qed
qed

section \<open>The registry operations, case by case\<close>

lemma NETINFO_LIST_ctor_eq:
  "NETINFO_LIST_ctor p0 h =
     Inr (h(p0 := NETINFO_ITEM_new '''' 0),
          \<lparr>m_netNames = [('''', p0)], m_netCodes = [(0, p0)], m_newNetCode = 0,
           m_DisplayNetnamesDirty = True\<rparr>)"
  by (simp add: NETINFO_LIST_ctor_def NETINFO_ITEM_new_def GetNetItem_name_def
      GetNetItem_code_def map_find_def)

lemma AppendNet_same_name:
  "GetNetItem_name L (m_netname (h p)) = Some s \<Longrightarrow>
     AppendNet p (h, L) = Inr (h(p := (h p)\<lparr>m_netCode := m_netCode (h s)\<rparr>), L)"
  by simp

lemma store_upd_code_same: "h(p := (h p)\<lparr>m_netCode := m_netCode (h p)\<rparr>) = h"
  by (rule ext) simp

lemma AppendNet_fresh:
  assumes "GetNetItem_name L (m_netname (h p)) = None"
  shows "AppendNet p (h, L) =
     (if map_find (m_netCodes L) (chosen_code h L p) \<noteq> None then Inl AssertCodeUnique
      else Inr (h(p := (h p)\<lparr>m_netCode := chosen_code h L p\<rparr>),
             L\<lparr>m_netNames := NETNAMES_insert (m_netname (h p), p) (m_netNames L),
               m_netCodes := NETCODES_insert (chosen_code h L p, p) (m_netCodes L),
               m_newNetCode :=
                 (if m_netCode (h p) \<noteq> int (length (m_netCodes L)) \<or> m_netCode (h p) < 0
                  then chosen_code h L p else m_newNetCode L),
               m_DisplayNetnamesDirty := True\<rparr>))"
proof (cases "m_netCode (h p) \<noteq> int (length (m_netCodes L)) \<or> m_netCode (h p) < 0")
  case True
  then show ?thesis
    using assms
    by (simp add: chosen_code_def getFreeNetCode_def GetNetItem_name_def GetNetItem_code_def
        Let_def)
next
  case False
  then have c: "chosen_code h L p = m_netCode (h p)" by (simp add: chosen_code_def)
  have "AppendNet p (h, L) =
     (if map_find (m_netCodes L) (m_netCode (h p)) \<noteq> None then Inl AssertCodeUnique
      else Inr (h,
             L\<lparr>m_netNames := NETNAMES_insert (m_netname (h p), p) (m_netNames L),
               m_netCodes := NETCODES_insert (m_netCode (h p), p) (m_netCodes L),
               m_DisplayNetnamesDirty := True\<rparr>))"
    using False assms by (simp add: GetNetItem_name_def GetNetItem_code_def)
  moreover have "L\<lparr>m_netNames := NETNAMES_insert (m_netname (h p), p) (m_netNames L),
               m_netCodes := NETCODES_insert (m_netCode (h p), p) (m_netCodes L),
               m_newNetCode := m_newNetCode L,
               m_DisplayNetnamesDirty := True\<rparr>
        = L\<lparr>m_netNames := NETNAMES_insert (m_netname (h p), p) (m_netNames L),
               m_netCodes := NETCODES_insert (m_netCode (h p), p) (m_netCodes L),
               m_DisplayNetnamesDirty := True\<rparr>"
    by simp
  moreover have "(if m_netCode (h p) \<noteq> int (length (m_netCodes L)) \<or> m_netCode (h p) < 0
                  then chosen_code h L p else m_newNetCode L) = m_newNetCode L"
    using False by simp
  ultimately show ?thesis
    by (simp only: c store_upd_code_same)
qed

section \<open>Consistent registries\<close>

lemma registry_consistent_iff:
  "registry_consistent h L \<longleftrightarrow>
     sorted (map fst (m_netCodes L)) \<and>
     distinct (map fst (m_netCodes L)) \<and>
     distinct (map fst (m_netNames L)) \<and>
     distinct (map snd (m_netCodes L)) \<and>
     (\<forall>e \<in> set (m_netCodes L). m_netCode (h (snd e)) = fst e) \<and>
     (\<forall>e \<in> set (m_netNames L). m_netname (h (snd e)) = fst e) \<and>
     snd ` set (m_netNames L) = snd ` set (m_netCodes L)"
  by (auto simp: registry_consistent_def list_all_iff)

lemma set_registry_records:
  "set (registry_records L) = snd ` set (m_netCodes L) \<union> snd ` set (m_netNames L)"
  by (auto simp: registry_records_def)

lemma consistent_records:
  "registry_consistent h L \<Longrightarrow> set (registry_records L) = snd ` set (m_netCodes L)"
  by (auto simp: set_registry_records registry_consistent_iff)

lemma consistent_name_entry:
  assumes "registry_consistent h L" "p \<in> snd ` set (m_netCodes L)"
  shows "(m_netname (h p), p) \<in> set (m_netNames L)"
proof -
  from assms have "p \<in> snd ` set (m_netNames L)" by (simp add: registry_consistent_iff)
  then obtain e where e: "e \<in> set (m_netNames L)" "snd e = p" by auto
  with assms(1) have "fst e = m_netname (h p)" by (auto simp: registry_consistent_iff)
  with e show ?thesis by (metis prod.collapse)
qed

lemma consistent_code_entry:
  assumes "registry_consistent h L" "p \<in> snd ` set (m_netCodes L)"
  shows "(m_netCode (h p), p) \<in> set (m_netCodes L)"
proof -
  from assms obtain e where e: "e \<in> set (m_netCodes L)" "snd e = p" by auto
  with assms(1) have "fst e = m_netCode (h p)" by (auto simp: registry_consistent_iff)
  with e show ?thesis by (metis prod.collapse)
qed

lemma consistent_lookup_name:
  assumes "registry_consistent h L" "p \<in> snd ` set (m_netCodes L)"
  shows "GetNetItem_name L (m_netname (h p)) = Some p"
  unfolding GetNetItem_name_def
  using consistent_name_entry [OF assms] assms(1)
  by (intro map_find_unique) (simp_all add: registry_consistent_iff)

lemma consistent_lookup_code:
  assumes "registry_consistent h L" "p \<in> snd ` set (m_netCodes L)"
  shows "GetNetItem_code L (m_netCode (h p)) = Some p"
  unfolding GetNetItem_code_def
  using consistent_code_entry [OF assms] assms(1)
  by (intro map_find_unique) (simp_all add: registry_consistent_iff)

lemma consistent_distinct_snd_names:
  assumes "registry_consistent h L"
  shows "distinct (map snd (m_netNames L))"
proof -
  have "map fst (m_netNames L) = map (\<lambda>p. m_netname (h p)) (map snd (m_netNames L))"
    using assms by (auto simp: registry_consistent_iff)
  moreover have "distinct (map fst (m_netNames L))"
    using assms by (simp add: registry_consistent_iff)
  ultimately show ?thesis by (metis distinct_map)
qed

lemma consistent_codes_inj:
  assumes "registry_consistent h L"
  shows "inj_on (\<lambda>p. m_netCode (h p)) (snd ` set (m_netCodes L))"
proof (rule inj_onI)
  fix p q
  assume p: "p \<in> snd ` set (m_netCodes L)" and q: "q \<in> snd ` set (m_netCodes L)"
    and eq: "m_netCode (h p) = m_netCode (h q)"
  from consistent_lookup_code [OF assms p] consistent_lookup_code [OF assms q] eq
  show "p = q" by (metis option.inject)
qed

lemma consistent_names_inj:
  assumes "registry_consistent h L"
  shows "inj_on (\<lambda>p. m_netname (h p)) (snd ` set (m_netCodes L))"
proof (rule inj_onI)
  fix p q
  assume p: "p \<in> snd ` set (m_netCodes L)" and q: "q \<in> snd ` set (m_netCodes L)"
    and eq: "m_netname (h p) = m_netname (h q)"
  from consistent_lookup_name [OF assms p] consistent_lookup_name [OF assms q] eq
  show "p = q" by (metis option.inject)
qed

lemma AppendNet_absorbed_store:
  assumes c: "registry_consistent h L"
    and s: "GetNetItem_name L (m_netname (h p)) = Some s"
    and q: "q \<in> snd ` set (m_netCodes L) \<or> q \<in> snd ` set (m_netNames L)"
  shows "(h(p := (h p)\<lparr>m_netCode := m_netCode (h s)\<rparr>)) q = h q"
proof (cases "q = p")
  case False
  then show ?thesis by simp
next
  case True
  with q c have "p \<in> snd ` set (m_netCodes L)"
    by (auto simp: registry_consistent_iff)
  from consistent_lookup_name [OF c this] s have "s = p" by simp
  then show ?thesis using True by (simp add: store_upd_code_same)
qed

lemma AppendNet_consistent:
  assumes c: "registry_consistent h L" and a: "AppendNet p (h, L) = Inr (h', L')"
  shows "registry_consistent h' L'"
proof (cases "GetNetItem_name L (m_netname (h p))")
  case (Some s)
  with a have eq: "h' = h(p := (h p)\<lparr>m_netCode := m_netCode (h s)\<rparr>)" "L' = L"
    by simp_all
  have st: "\<And>q. q \<in> snd ` set (m_netCodes L) \<or> q \<in> snd ` set (m_netNames L) \<Longrightarrow> h' q = h q"
    unfolding eq by (rule AppendNet_absorbed_store [of h L p s, OF c Some])
  have "\<And>e. e \<in> set (m_netCodes L) \<Longrightarrow> h' (snd e) = h (snd e)"
    using st by blast
  moreover have "\<And>e. e \<in> set (m_netNames L) \<Longrightarrow> h' (snd e) = h (snd e)"
    using st by blast
  ultimately show ?thesis using c unfolding eq(2) by (simp add: registry_consistent_iff)
next
  case None
  let ?c = "chosen_code h L p"
  let ?n = "m_netname (h p)"
  from a AppendNet_fresh [of L h p, OF None]
  have free: "map_find (m_netCodes L) ?c = None"
    and h': "h' = h(p := (h p)\<lparr>m_netCode := ?c\<rparr>)"
    and names': "m_netNames L' = NETNAMES_insert (?n, p) (m_netNames L)"
    and codes': "m_netCodes L' = NETCODES_insert (?c, p) (m_netCodes L)"
    by (auto split: if_splits)
  from free have kc: "?c \<notin> fst ` set (m_netCodes L)" by (simp add: map_find_None_iff)
  from None have kn: "?n \<notin> fst ` set (m_netNames L)"
    by (simp add: GetNetItem_name_def map_find_None_iff)
  have pn: "p \<notin> snd ` set (m_netCodes L)"
  proof
    assume "p \<in> snd ` set (m_netCodes L)"
    from consistent_lookup_name [OF c this] None show False by simp
  qed
  then have pm: "p \<notin> snd ` set (m_netNames L)" using c by (simp add: registry_consistent_iff)
  have n2: "m_netNames L' = m_netNames L @ [(?n, p)]"
    unfolding names' using kn by (intro NETNAMES_insert_fresh) simp
  have s2: "set (m_netCodes L') = insert (?c, p) (set (m_netCodes L))"
    unfolding codes' using kc by (intro set_NETCODES_insert) simp
  have "sorted (map fst (m_netCodes L'))"
    unfolding codes' using c kc by (intro sorted_NETCODES_insert) (simp_all add: registry_consistent_iff)
  moreover have "distinct (map fst (m_netCodes L'))"
    unfolding codes' using c kc
    by (intro distinct_fst_NETCODES_insert) (simp_all add: registry_consistent_iff)
  moreover have "distinct (map fst (m_netNames L'))"
    unfolding n2 using c kn by (simp add: registry_consistent_iff)
  moreover have "distinct (map snd (m_netCodes L'))"
    unfolding codes' using c kc pn
    by (intro distinct_snd_NETCODES_insert) (simp_all add: registry_consistent_iff)
  moreover have "\<forall>e \<in> set (m_netCodes L'). m_netCode (h' (snd e)) = fst e"
    unfolding s2 h' using c pn by (auto simp: registry_consistent_iff)
  moreover have "\<forall>e \<in> set (m_netNames L'). m_netname (h' (snd e)) = fst e"
    unfolding n2 h' using c pm by (auto simp: registry_consistent_iff)
  moreover have "snd ` set (m_netNames L') = snd ` set (m_netCodes L')"
    unfolding n2 s2 using c by (simp add: registry_consistent_iff)
  ultimately show ?thesis by (simp add: registry_consistent_iff)
qed

section \<open>Removal and pruning on a consistent registry\<close>

lemma erase_first_filter:
  "distinct (map snd m) \<Longrightarrow> a \<in> snd ` set m \<Longrightarrow>
     erase_first a m = Some (filter (\<lambda>e. snd e \<noteq> a) m)"
proof (induction m)
  case Nil
  then show ?case by simp
next
  case (Cons e es)
  show ?case
  proof (cases "snd e = a")
    case True
    with Cons.prems(1) have "\<forall>x \<in> set es. snd x \<noteq> a" by (auto simp: image_iff)
    then have "filter (\<lambda>e. snd e \<noteq> a) es = es" by simp
    with True show ?thesis by simp
  next
    case False
    with Cons.prems have "a \<in> snd ` set es" "distinct (map snd es)" by auto
    with Cons.IH False show ?thesis by simp
  qed
qed

lemma RemoveNet_absent:
  "p \<notin> set (registry_records L) \<Longrightarrow> RemoveNet p h L = Inr L"
  by (simp add: set_registry_records RemoveNet_def erase_first_None_iff [THEN iffD2])

lemma RemoveNet_found:
  assumes "erase_first p (m_netCodes L) = Some cs"
  shows "RemoveNet p h L =
     Inr (L\<lparr>m_netCodes := cs,
            m_netNames := (case erase_first p (m_netNames L) of None \<Rightarrow> m_netNames L | Some ns \<Rightarrow> ns),
            m_newNetCode := min (m_newNetCode L) (m_netCode (h p) - 1),
            m_DisplayNetnamesDirty := True\<rparr>)"
  using assms by (simp add: RemoveNet_def split: option.splits)

lemma RemoveNet_present:
  assumes c: "registry_consistent h L" and p: "p \<in> snd ` set (m_netCodes L)"
  shows "RemoveNet p h L =
     Inr (L\<lparr>m_netCodes := filter (\<lambda>e. snd e \<noteq> p) (m_netCodes L),
            m_netNames := filter (\<lambda>e. snd e \<noteq> p) (m_netNames L),
            m_newNetCode := min (m_newNetCode L) (m_netCode (h p) - 1),
            m_DisplayNetnamesDirty := True\<rparr>)"
proof -
  have 1: "erase_first p (m_netCodes L) = Some (filter (\<lambda>e. snd e \<noteq> p) (m_netCodes L))"
    using c p by (intro erase_first_filter) (simp_all add: registry_consistent_iff)
  have "p \<in> snd ` set (m_netNames L)" using c p by (simp add: registry_consistent_iff)
  then have 2: "erase_first p (m_netNames L) = Some (filter (\<lambda>e. snd e \<noteq> p) (m_netNames L))"
    using consistent_distinct_snd_names [OF c] by (intro erase_first_filter)
  show ?thesis using RemoveNet_found [OF 1, of h] 2 by simp
qed

lemma consistent_filter:
  assumes c: "registry_consistent h L"
  shows "registry_consistent h
           (L\<lparr>m_netCodes := filter (\<lambda>e. P (snd e)) (m_netCodes L),
             m_netNames := filter (\<lambda>e. P (snd e)) (m_netNames L),
             m_newNetCode := n, m_DisplayNetnamesDirty := d\<rparr>)"
proof -
  have "snd ` set (filter (\<lambda>e. P (snd e)) (m_netNames L))
          = {q \<in> snd ` set (m_netNames L). P q}" by auto
  moreover have "snd ` set (filter (\<lambda>e. P (snd e)) (m_netCodes L))
          = {q \<in> snd ` set (m_netCodes L). P q}" by auto
  ultimately have "snd ` set (filter (\<lambda>e. P (snd e)) (m_netNames L))
          = snd ` set (filter (\<lambda>e. P (snd e)) (m_netCodes L))"
    using c by (simp add: registry_consistent_iff)
  then show ?thesis
    using c by (simp add: registry_consistent_iff sorted_filter distinct_map_filter)
qed

lemma RemoveNet_consistent:
  assumes c: "registry_consistent h L" and r: "RemoveNet p h L = Inr L'"
  shows "registry_consistent h L'"
proof (cases "p \<in> snd ` set (m_netCodes L)")
  case True
  from RemoveNet_present [OF c True] r consistent_filter [OF c, where P = "\<lambda>q. q \<noteq> p"]
  show ?thesis by auto
next
  case False
  with c have "p \<notin> set (registry_records L)" by (simp add: consistent_records)
  from RemoveNet_absent [OF this, of h] r c show ?thesis by simp
qed

lemma RemoveUnusedNets_loop_eq:
  assumes "\<forall>e \<in> set (m_netCodes L). \<forall>e' \<in> set rest. fst e < fst e'"
    and "sorted (map fst rest)" and "distinct (map fst rest)"
    and "\<forall>e' \<in> set rest. m_netname (h (snd e')) \<notin> fst ` set (m_netNames L)"
    and "distinct (map (\<lambda>e. m_netname (h (snd e))) rest)"
  shows "RemoveUnusedNets_loop h rest (L, aCommit) =
     (L\<lparr>m_netNames := m_netNames L
            @ map (\<lambda>e. (m_netname (h (snd e)), snd e)) (filter (\<lambda>e. m_isCurrent (h (snd e))) rest),
        m_netCodes := m_netCodes L @ filter (\<lambda>e. m_isCurrent (h (snd e))) rest,
        m_DisplayNetnamesDirty :=
          (m_DisplayNetnamesDirty L \<or> \<not> list_all (\<lambda>e. m_isCurrent (h (snd e))) rest)\<rparr>,
      map_option (\<lambda>removed. removed @ map snd (filter (\<lambda>e. \<not> m_isCurrent (h (snd e))) rest)) aCommit)"
  using assms
proof (induction rest arbitrary: L aCommit)
  case Nil
  show ?case by (cases aCommit) simp_all
next
  case (Cons e rest)
  obtain c p where e: "e = (c, p)" by (cases e)
  show ?case
  proof (cases "m_isCurrent (h p)")
    case True
    let ?L1 = "L\<lparr>m_netNames := m_netNames L @ [(m_netname (h p), p)],
                  m_netCodes := m_netCodes L @ [(c, p)]\<rparr>"
    have i1: "NETCODES_insert (c, p) (m_netCodes L) = m_netCodes L @ [(c, p)]"
      using Cons.prems(1) e by (intro NETCODES_insert_last) simp
    have i2: "NETNAMES_insert (m_netname (h p), p) (m_netNames L)
                = m_netNames L @ [(m_netname (h p), p)]"
      using Cons.prems(4) e by (intro NETNAMES_insert_fresh) simp
    have step: "RemoveUnusedNets_loop h (e # rest) (L, aCommit)
                  = RemoveUnusedNets_loop h rest (?L1, aCommit)"
      using True by (simp add: e i1 i2)
    have a1: "\<forall>x \<in> set (m_netCodes ?L1). \<forall>e' \<in> set rest. fst x < fst e'"
      using Cons.prems(1,2,3) e by (auto simp: less_le)
    have a4: "\<forall>e' \<in> set rest. m_netname (h (snd e')) \<notin> fst ` set (m_netNames ?L1)"
      using Cons.prems(4,5) e by (fastforce simp: image_iff)
    have "RemoveUnusedNets_loop h rest (?L1, aCommit) =
     (?L1\<lparr>m_netNames := m_netNames ?L1
            @ map (\<lambda>e. (m_netname (h (snd e)), snd e)) (filter (\<lambda>e. m_isCurrent (h (snd e))) rest),
        m_netCodes := m_netCodes ?L1 @ filter (\<lambda>e. m_isCurrent (h (snd e))) rest,
        m_DisplayNetnamesDirty :=
          (m_DisplayNetnamesDirty ?L1 \<or> \<not> list_all (\<lambda>e. m_isCurrent (h (snd e))) rest)\<rparr>,
      map_option (\<lambda>removed. removed @ map snd (filter (\<lambda>e. \<not> m_isCurrent (h (snd e))) rest)) aCommit)"
      using Cons.prems(2,3,5) by (intro Cons.IH [OF a1 _ _ a4]) simp_all
    with step True show ?thesis by (simp add: e)
  next
    case False
    let ?L1 = "L\<lparr>m_DisplayNetnamesDirty := True\<rparr>"
    let ?C1 = "case aCommit of None \<Rightarrow> None | Some removed \<Rightarrow> Some (removed @ [p])"
    have step: "RemoveUnusedNets_loop h (e # rest) (L, aCommit)
                  = RemoveUnusedNets_loop h rest (?L1, ?C1)"
      using False by (simp add: e)
    have a1: "\<forall>x \<in> set (m_netCodes ?L1). \<forall>e' \<in> set rest. fst x < fst e'"
      using Cons.prems(1) by simp
    have a4: "\<forall>e' \<in> set rest. m_netname (h (snd e')) \<notin> fst ` set (m_netNames ?L1)"
      using Cons.prems(4) by simp
    have "RemoveUnusedNets_loop h rest (?L1, ?C1) =
     (?L1\<lparr>m_netNames := m_netNames ?L1
            @ map (\<lambda>e. (m_netname (h (snd e)), snd e)) (filter (\<lambda>e. m_isCurrent (h (snd e))) rest),
        m_netCodes := m_netCodes ?L1 @ filter (\<lambda>e. m_isCurrent (h (snd e))) rest,
        m_DisplayNetnamesDirty :=
          (m_DisplayNetnamesDirty ?L1 \<or> \<not> list_all (\<lambda>e. m_isCurrent (h (snd e))) rest)\<rparr>,
      map_option (\<lambda>removed. removed @ map snd (filter (\<lambda>e. \<not> m_isCurrent (h (snd e))) rest)) ?C1)"
      using Cons.prems(2,3,5) by (intro Cons.IH [OF a1 _ _ a4]) simp_all
    with step False show ?thesis by (cases aCommit) (simp_all add: e)
  qed
qed

lemma consistent_distinct_names:
  assumes c: "registry_consistent h L"
  shows "distinct (map (\<lambda>e. m_netname (h (snd e))) (m_netCodes L))"
proof -
  have d: "distinct (m_netCodes L)" "inj_on snd (set (m_netCodes L))"
    using c by (simp_all add: registry_consistent_iff distinct_map)
  have "inj_on ((\<lambda>p. m_netname (h p)) \<circ> snd) (set (m_netCodes L))"
    using d(2) consistent_names_inj [OF c] by (rule comp_inj_on)
  then show ?thesis using d(1) by (simp add: distinct_map comp_def)
qed

lemma RemoveUnusedNets_eq:
  assumes c: "registry_consistent h L"
  shows "RemoveUnusedNets h aCommit L =
     (L\<lparr>m_netNames := map (\<lambda>e. (m_netname (h (snd e)), snd e))
                         (filter (\<lambda>e. m_isCurrent (h (snd e))) (m_netCodes L)),
        m_netCodes := filter (\<lambda>e. m_isCurrent (h (snd e))) (m_netCodes L),
        m_DisplayNetnamesDirty :=
          (m_DisplayNetnamesDirty L \<or> \<not> list_all (\<lambda>e. m_isCurrent (h (snd e))) (m_netCodes L))\<rparr>,
      map_option (\<lambda>removed. removed
          @ map snd (filter (\<lambda>e. \<not> m_isCurrent (h (snd e))) (m_netCodes L))) aCommit)"
proof -
  let ?L0 = "L\<lparr>m_netCodes := [], m_netNames := []\<rparr>"
  have "RemoveUnusedNets_loop h (m_netCodes L) (?L0, aCommit) =
     (?L0\<lparr>m_netNames := m_netNames ?L0
            @ map (\<lambda>e. (m_netname (h (snd e)), snd e))
                (filter (\<lambda>e. m_isCurrent (h (snd e))) (m_netCodes L)),
        m_netCodes := m_netCodes ?L0 @ filter (\<lambda>e. m_isCurrent (h (snd e))) (m_netCodes L),
        m_DisplayNetnamesDirty :=
          (m_DisplayNetnamesDirty ?L0 \<or> \<not> list_all (\<lambda>e. m_isCurrent (h (snd e))) (m_netCodes L))\<rparr>,
      map_option (\<lambda>removed. removed
          @ map snd (filter (\<lambda>e. \<not> m_isCurrent (h (snd e))) (m_netCodes L))) aCommit)"
    using c consistent_distinct_names [OF c]
    by (intro RemoveUnusedNets_loop_eq) (simp_all add: registry_consistent_iff)
  then show ?thesis by (simp add: RemoveUnusedNets_def)
qed

lemma RemoveUnusedNets_consistent:
  assumes c: "registry_consistent h L"
  shows "registry_consistent h (fst (RemoveUnusedNets h aCommit L))"
proof -
  let ?keep = "filter (\<lambda>e. m_isCurrent (h (snd e))) (m_netCodes L)"
  have d: "distinct (map (\<lambda>e. m_netname (h (snd e))) ?keep)"
    using consistent_distinct_names [OF c] by (rule distinct_map_filter)
  have "map fst (map (\<lambda>e. (m_netname (h (snd e)), snd e)) ?keep)
          = map (\<lambda>e. m_netname (h (snd e))) ?keep" by simp
  with d have "distinct (map fst (map (\<lambda>e. (m_netname (h (snd e)), snd e)) ?keep))"
    by (simp only:)
  moreover have "snd ` set (map (\<lambda>e. (m_netname (h (snd e)), snd e)) ?keep) = snd ` set ?keep"
    by force
  ultimately show ?thesis
    using c unfolding RemoveUnusedNets_eq [OF c]
    by (simp add: registry_consistent_iff sorted_filter distinct_map_filter)
qed

section \<open>Every registry that the operations reach is consistent\<close>

text \<open>
  The constructor yields a consistent registry, and each operation, as well as a change of
  a current flag, keeps a consistent registry consistent. The statements below that assume
  a consistent registry therefore cover every registry reached from the constructor.
\<close>

lemma consistent_store_cong:
  assumes "\<And>q. m_netCode (h' q) = m_netCode (h q)" "\<And>q. m_netname (h' q) = m_netname (h q)"
  shows "registry_consistent h' L = registry_consistent h L"
  by (simp add: registry_consistent_iff assms)

lemma step_consistent:
  assumes c: "registry_consistent h L" and st: "step e (h, L) = Inr (h', L')"
  shows "registry_consistent h' L'"
proof (cases e)
  case (Append p)
  with st have "AppendNet p (h, L) = Inr (h', L')" by simp
  with c show ?thesis by (rule AppendNet_consistent)
next
  case (Remove p)
  with st have r: "RemoveNet p h L = Inr L'" and hh: "h' = h" by (auto split: sum.splits)
  from c r show ?thesis unfolding hh by (rule RemoveNet_consistent)
next
  case (Prune aCommit)
  with st have L': "L' = fst (RemoveUnusedNets h aCommit L)" and hh: "h' = h" by auto
  show ?thesis unfolding L' hh using c by (rule RemoveUnusedNets_consistent)
next
  case (SetIsCurrent p b)
  with st have h': "h' = h(p := (h p)\<lparr>m_isCurrent := b\<rparr>)" and LL: "L' = L" by simp_all
  have "registry_consistent h' L = registry_consistent h L"
    by (rule consistent_store_cong) (simp_all add: h')
  with c show ?thesis by (simp add: LL)
qed

lemma run_consistent:
  "registry_consistent h L \<Longrightarrow> run es (h, L) = Inr (h', L') \<Longrightarrow> registry_consistent h' L'"
proof (induction es arbitrary: h L)
  case Nil
  then show ?case by simp
next
  case (Cons e es)
  from Cons.prems(2) obtain h1 L1 where s1: "step e (h, L) = Inr (h1, L1)"
    and r1: "run es (h1, L1) = Inr (h', L')"
    by (auto split: sum.splits)
  from Cons.prems(1) s1 have "registry_consistent h1 L1" by (rule step_consistent)
  then show ?case using r1 by (rule Cons.IH)
qed

lemma run_new_consistent:
  assumes "run_new p0 h es = Inr (h', L')"
  shows "registry_consistent h' L'"
proof -
  let ?h0 = "h(p0 := NETINFO_ITEM_new '''' 0)"
  let ?L0 = "\<lparr>m_netNames = [('''', p0)], m_netCodes = [(0, p0)], m_newNetCode = 0,
      m_DisplayNetnamesDirty = True\<rparr>"
  from assms have r: "run es (?h0, ?L0) = Inr (h', L')"
    by (simp add: run_new_def NETINFO_LIST_ctor_eq)
  have "registry_consistent ?h0 ?L0"
    by (simp add: registry_consistent_def NETINFO_ITEM_new_def)
  then show ?thesis using r by (rule run_consistent)
qed

section \<open>Appending a registered name, removing an absent record\<close>

text \<open>
  Claim C2. In a consistent registry, \<open>AppendNet\<close> of a record \<open>r\<close> whose name is the name
  of a registered record \<open>s\<close> returns normally, leaves both indices as they were (so the
  size does not grow and \<open>r\<close> is not inserted), and overwrites the code of \<open>r\<close> with the code
  of \<open>s\<close>.
\<close>

theorem AppendNet_same_name_merges:
  assumes "registry_consistent h L" and "s \<in> set (registry_records L)"
    and "m_netname (h s) = m_netname (h r)"
  shows "\<exists>h' L'. AppendNet r (h, L) = Inr (h', L')
            \<and> length (m_netCodes L') = length (m_netCodes L)
            \<and> length (m_netNames L') = length (m_netNames L)
            \<and> m_netCodes L' = m_netCodes L \<and> m_netNames L' = m_netNames L
            \<and> registry_records L' = registry_records L
            \<and> m_netCode (h' r) = m_netCode (h s)"
proof -
  from assms(1,2) have "s \<in> snd ` set (m_netCodes L)" by (simp add: consistent_records)
  from consistent_lookup_name [OF assms(1) this] assms(3)
  have "GetNetItem_name L (m_netname (h r)) = Some s" by simp
  then have "AppendNet r (h, L) = Inr (h(r := (h r)\<lparr>m_netCode := m_netCode (h s)\<rparr>), L)"
    by (rule AppendNet_same_name)
  then show ?thesis by simp
qed

theorem AppendNet_same_name_merges_witness:
  "registry_consistent
     (no_items
        (0 := \<lparr>m_netCode = 0, m_netname = '''', m_isCurrent = True\<rparr>,
         1 := \<lparr>m_netCode = 1, m_netname = ''GND'', m_isCurrent = True\<rparr>,
         2 := \<lparr>m_netCode = 7, m_netname = ''GND'', m_isCurrent = True\<rparr>))
     \<lparr>m_netNames = [('''', 0), (''GND'', 1)], m_netCodes = [(0, 0), (1, 1)],
      m_newNetCode = 1, m_DisplayNetnamesDirty = False\<rparr>
   \<and> 1 \<in> set (registry_records
       \<lparr>m_netNames = [('''', 0), (''GND'', 1)], m_netCodes = [(0, 0), (1, 1)],
        m_newNetCode = 1, m_DisplayNetnamesDirty = False\<rparr>)
   \<and> code_in 2 (AppendNet 2
       (no_items
        (0 := \<lparr>m_netCode = 0, m_netname = '''', m_isCurrent = True\<rparr>,
         1 := \<lparr>m_netCode = 1, m_netname = ''GND'', m_isCurrent = True\<rparr>,
         2 := \<lparr>m_netCode = 7, m_netname = ''GND'', m_isCurrent = True\<rparr>),
        \<lparr>m_netNames = [('''', 0), (''GND'', 1)], m_netCodes = [(0, 0), (1, 1)],
         m_newNetCode = 1, m_DisplayNetnamesDirty = False\<rparr>)) = Some 1
   \<and> registry_of (AppendNet 2
       (no_items
        (0 := \<lparr>m_netCode = 0, m_netname = '''', m_isCurrent = True\<rparr>,
         1 := \<lparr>m_netCode = 1, m_netname = ''GND'', m_isCurrent = True\<rparr>,
         2 := \<lparr>m_netCode = 7, m_netname = ''GND'', m_isCurrent = True\<rparr>),
        \<lparr>m_netNames = [('''', 0), (''GND'', 1)], m_netCodes = [(0, 0), (1, 1)],
         m_newNetCode = 1, m_DisplayNetnamesDirty = False\<rparr>))
     = Some \<lparr>m_netNames = [('''', 0), (''GND'', 1)], m_netCodes = [(0, 0), (1, 1)],
         m_newNetCode = 1, m_DisplayNetnamesDirty = False\<rparr>"
proof -
  let ?h = "no_items
        (0 := \<lparr>m_netCode = 0, m_netname = '''', m_isCurrent = True\<rparr>,
         1 := \<lparr>m_netCode = 1, m_netname = ''GND'', m_isCurrent = True\<rparr>,
         2 := \<lparr>m_netCode = 7, m_netname = ''GND'', m_isCurrent = True\<rparr>)"
  let ?L = "\<lparr>m_netNames = [('''', 0), (''GND'', 1)], m_netCodes = [(0, 0), (1, 1)],
         m_newNetCode = 1, m_DisplayNetnamesDirty = False\<rparr>"
  have a: "registry_consistent ?h ?L" by (simp add: registry_consistent_def)
  have b: "1 \<in> set (registry_records ?L)" by (simp add: registry_records_def)
  have c: "m_netname (?h 1) = m_netname (?h 2)" by simp
  from AppendNet_same_name_merges [OF a b c]
  obtain h' L' where r: "AppendNet 2 (?h, ?L) = Inr (h', L')"
    "m_netCodes L' = m_netCodes ?L" "m_netNames L' = m_netNames ?L"
    "m_netCode (h' 2) = m_netCode (?h 1)" by blast
  have "AppendNet 2 (?h, ?L) = Inr (?h(2 := (?h 2)\<lparr>m_netCode := 1\<rparr>), ?L)"
    by (simp add: GetNetItem_name_def map_find_def)
  with r have "code_in 2 (AppendNet 2 (?h, ?L)) = Some 1"
    "registry_of (AppendNet 2 (?h, ?L)) = Some ?L"
    by (simp_all add: code_in_def registry_of_def)
  with a b show ?thesis by (simp only:)
qed

text \<open>
  Claim C10. When the by-name index has an entry for the name of the record passed to
  \<open>AppendNet\<close>, the call returns the registry unchanged (both indices, the hint and the
  stale flag, which is not set on this path), and the only write to the store is the code
  of the entry's record into the \<open>m_netCode\<close> field of the argument.
\<close>

theorem AppendNet_same_name_frame:
  assumes "GetNetItem_name L (m_netname (h r)) = Some s"
  shows "\<exists>h'. AppendNet r (h, L) = Inr (h', L)
            \<and> h' r = (h r)\<lparr>m_netCode := m_netCode (h s)\<rparr>
            \<and> (\<forall>q. q \<noteq> r \<longrightarrow> h' q = h q)"
  using assms by simp

theorem AppendNet_same_name_frame_witness:
  "GetNetItem_name
     \<lparr>m_netNames = [('''', 0), (''GND'', 1)], m_netCodes = [(0, 0), (1, 1)],
      m_newNetCode = 1, m_DisplayNetnamesDirty = False\<rparr>
     (m_netname ((no_items
        (1 := \<lparr>m_netCode = 1, m_netname = ''GND'', m_isCurrent = True\<rparr>,
         2 := \<lparr>m_netCode = - 1, m_netname = ''GND'', m_isCurrent = True\<rparr>)) 2)) = Some 1
   \<and> AppendNet 2
       (no_items
        (1 := \<lparr>m_netCode = 1, m_netname = ''GND'', m_isCurrent = True\<rparr>,
         2 := \<lparr>m_netCode = - 1, m_netname = ''GND'', m_isCurrent = True\<rparr>),
        \<lparr>m_netNames = [('''', 0), (''GND'', 1)], m_netCodes = [(0, 0), (1, 1)],
         m_newNetCode = 1, m_DisplayNetnamesDirty = False\<rparr>)
     = Inr (no_items
        (1 := \<lparr>m_netCode = 1, m_netname = ''GND'', m_isCurrent = True\<rparr>,
         2 := \<lparr>m_netCode = 1, m_netname = ''GND'', m_isCurrent = True\<rparr>),
        \<lparr>m_netNames = [('''', 0), (''GND'', 1)], m_netCodes = [(0, 0), (1, 1)],
         m_newNetCode = 1, m_DisplayNetnamesDirty = False\<rparr>)"
proof -
  let ?h = "no_items
        (1 := \<lparr>m_netCode = 1, m_netname = ''GND'', m_isCurrent = True\<rparr>,
         2 := \<lparr>m_netCode = - 1, m_netname = ''GND'', m_isCurrent = True\<rparr>)"
  let ?L = "\<lparr>m_netNames = [('''', 0), (''GND'', 1)], m_netCodes = [(0, 0), (1, 1)],
         m_newNetCode = 1, m_DisplayNetnamesDirty = False\<rparr>"
  have a: "GetNetItem_name ?L (m_netname (?h 2)) = Some 1"
    by (simp add: GetNetItem_name_def map_find_def)
  from AppendNet_same_name_frame [of ?L ?h 2 1, OF a]
  obtain h' where h': "AppendNet 2 (?h, ?L) = Inr (h', ?L)"
    "h' 2 = (?h 2)\<lparr>m_netCode := m_netCode (?h 1)\<rparr>" "\<forall>q. q \<noteq> 2 \<longrightarrow> h' q = ?h q"
    by blast
  have "h' = no_items
        (1 := \<lparr>m_netCode = 1, m_netname = ''GND'', m_isCurrent = True\<rparr>,
         2 := \<lparr>m_netCode = 1, m_netname = ''GND'', m_isCurrent = True\<rparr>)"
  proof (rule ext)
    fix q show "h' q = (no_items
        (1 := \<lparr>m_netCode = 1, m_netname = ''GND'', m_isCurrent = True\<rparr>,
         2 := \<lparr>m_netCode = 1, m_netname = ''GND'', m_isCurrent = True\<rparr>)) q"
      using h'(2,3) by (cases "q = 2") simp_all
  qed
  with h'(1) a show ?thesis by (simp only:)
qed

text \<open>
  Claim C9. \<open>RemoveNet\<close> on a record that neither index reaches returns without an error
  and leaves the registry as it was: both indices, \<open>m_newNetCode\<close> and
  \<open>m_DisplayNetnamesDirty\<close>. (\<open>RemoveNet\<close> has no access to the store of records.)
\<close>

theorem RemoveNet_absent_noop:
  assumes "aNet \<notin> set (registry_records L)"
  shows "RemoveNet aNet h L = Inr L"
proof -
  from assms have "aNet \<notin> snd ` set (m_netCodes L)" and "aNet \<notin> snd ` set (m_netNames L)"
    by (simp_all add: set_registry_records)
  then have "erase_first aNet (m_netCodes L) = None" and "erase_first aNet (m_netNames L) = None"
    by (simp_all add: erase_first_None_iff)
  then show ?thesis by (simp add: RemoveNet_def)
qed

theorem RemoveNet_absent_noop_witness:
  "3 \<notin> set (registry_records
       \<lparr>m_netNames = [('''', 0), (''GND'', 1)], m_netCodes = [(0, 0), (1, 1)],
        m_newNetCode = 1, m_DisplayNetnamesDirty = False\<rparr>)
   \<and> RemoveNet 3 no_items
       \<lparr>m_netNames = [('''', 0), (''GND'', 1)], m_netCodes = [(0, 0), (1, 1)],
        m_newNetCode = 1, m_DisplayNetnamesDirty = False\<rparr>
     = Inr \<lparr>m_netNames = [('''', 0), (''GND'', 1)], m_netCodes = [(0, 0), (1, 1)],
            m_newNetCode = 1, m_DisplayNetnamesDirty = False\<rparr>"
proof -
  have a: "3 \<notin> set (registry_records
       \<lparr>m_netNames = [('''', 0), (''GND'', 1)], m_netCodes = [(0, 0), (1, 1)],
        m_newNetCode = 1, m_DisplayNetnamesDirty = False\<rparr>)"
    by (simp add: registry_records_def)
  from a RemoveNet_absent_noop [OF a, of no_items] show ?thesis by simp
qed

section \<open>Pruning\<close>

lemma count_list_distinct:
  "distinct xs \<Longrightarrow> count_list xs x = (if x \<in> set xs then 1 else 0)"
  by (induction xs) auto

text \<open>
  Claim C3. On a consistent registry, \<open>RemoveUnusedNets\<close> keeps exactly the records that are
  current: the records of the new registry are the current records of the old one, both
  indices reach the same records, every current record is found under its code and under its
  name, and no record that is not current is left in either index. A sink that is provided
  receives the records that are not current, in by-code order, after what it already held:
  one notification for each removed record and none for any other; without a sink there is
  no notification.
\<close>

theorem RemoveUnusedNets_partitions:
  assumes c: "registry_consistent h L"
    and r: "RemoveUnusedNets h aCommit L = (L', aCommit')"
  shows "set (registry_records L') = {p \<in> set (registry_records L). m_isCurrent (h p)}
    \<and> snd ` set (m_netNames L') = snd ` set (m_netCodes L')
    \<and> (\<forall>p \<in> set (registry_records L). m_isCurrent (h p) \<longrightarrow>
           GetNetItem_code L' (m_netCode (h p)) = Some p
           \<and> GetNetItem_name L' (m_netname (h p)) = Some p)
    \<and> (\<forall>p \<in> set (registry_records L). \<not> m_isCurrent (h p) \<longrightarrow>
           p \<notin> snd ` set (m_netCodes L') \<and> p \<notin> snd ` set (m_netNames L'))
    \<and> aCommit' = map_option (\<lambda>removed. removed
           @ filter (\<lambda>p. \<not> m_isCurrent (h p)) (map snd (m_netCodes L))) aCommit
    \<and> (\<forall>p. count_list (filter (\<lambda>p. \<not> m_isCurrent (h p)) (map snd (m_netCodes L))) p
           = (if p \<in> set (registry_records L) \<and> \<not> m_isCurrent (h p) then 1 else 0))"
proof (intro conjI)
  let ?keep = "filter (\<lambda>e. m_isCurrent (h (snd e))) (m_netCodes L)"
  from r RemoveUnusedNets_eq [OF c, of aCommit]
  have codes': "m_netCodes L' = ?keep"
    and names': "m_netNames L' = map (\<lambda>e. (m_netname (h (snd e)), snd e)) ?keep"
    and commit': "aCommit' = map_option (\<lambda>removed. removed
           @ map snd (filter (\<lambda>e. \<not> m_isCurrent (h (snd e))) (m_netCodes L))) aCommit"
    by auto
  have c': "registry_consistent h L'"
    using RemoveUnusedNets_consistent [OF c, of aCommit] r by simp
  have recs: "set (registry_records L) = snd ` set (m_netCodes L)"
    using c by (rule consistent_records)
  have recs': "set (registry_records L') = snd ` set (m_netCodes L')"
    using c' by (rule consistent_records)
  show m: "set (registry_records L') = {p \<in> set (registry_records L). m_isCurrent (h p)}"
    unfolding recs recs' codes' by auto
  show n: "snd ` set (m_netNames L') = snd ` set (m_netCodes L')"
    using c' by (simp add: registry_consistent_iff)
  show "\<forall>p \<in> set (registry_records L). m_isCurrent (h p) \<longrightarrow>
           GetNetItem_code L' (m_netCode (h p)) = Some p
           \<and> GetNetItem_name L' (m_netname (h p)) = Some p"
  proof (intro ballI impI)
    fix p assume "p \<in> set (registry_records L)" "m_isCurrent (h p)"
    with m recs' have "p \<in> snd ` set (m_netCodes L')" by simp
    then show "GetNetItem_code L' (m_netCode (h p)) = Some p
           \<and> GetNetItem_name L' (m_netname (h p)) = Some p"
      using consistent_lookup_code [OF c'] consistent_lookup_name [OF c'] by simp
  qed
  show "\<forall>p \<in> set (registry_records L). \<not> m_isCurrent (h p) \<longrightarrow>
           p \<notin> snd ` set (m_netCodes L') \<and> p \<notin> snd ` set (m_netNames L')"
    using m recs' n by auto
  have f: "map snd (filter (\<lambda>e. \<not> m_isCurrent (h (snd e))) (m_netCodes L))
             = filter (\<lambda>p. \<not> m_isCurrent (h p)) (map snd (m_netCodes L))"
    by (simp add: filter_map comp_def)
  show "aCommit' = map_option (\<lambda>removed. removed
           @ filter (\<lambda>p. \<not> m_isCurrent (h p)) (map snd (m_netCodes L))) aCommit"
    using commit' unfolding f .
  have "distinct (filter (\<lambda>p. \<not> m_isCurrent (h p)) (map snd (m_netCodes L)))"
    using c by (simp add: registry_consistent_iff)
  then show "\<forall>p. count_list (filter (\<lambda>p. \<not> m_isCurrent (h p)) (map snd (m_netCodes L))) p
           = (if p \<in> set (registry_records L) \<and> \<not> m_isCurrent (h p) then 1 else 0)"
    unfolding recs by (auto simp: count_list_distinct)
qed

theorem RemoveUnusedNets_partitions_witness:
  "registry_consistent
     (no_items
        (0 := \<lparr>m_netCode = 0, m_netname = '''', m_isCurrent = True\<rparr>,
         1 := \<lparr>m_netCode = 1, m_netname = ''GND'', m_isCurrent = False\<rparr>,
         2 := \<lparr>m_netCode = 2, m_netname = ''VCC'', m_isCurrent = True\<rparr>))
     \<lparr>m_netNames = [('''', 0), (''GND'', 1), (''VCC'', 2)],
      m_netCodes = [(0, 0), (1, 1), (2, 2)],
      m_newNetCode = 2, m_DisplayNetnamesDirty = False\<rparr>
   \<and> RemoveUnusedNets
       (no_items
        (0 := \<lparr>m_netCode = 0, m_netname = '''', m_isCurrent = True\<rparr>,
         1 := \<lparr>m_netCode = 1, m_netname = ''GND'', m_isCurrent = False\<rparr>,
         2 := \<lparr>m_netCode = 2, m_netname = ''VCC'', m_isCurrent = True\<rparr>))
       (Some [9])
       \<lparr>m_netNames = [('''', 0), (''GND'', 1), (''VCC'', 2)],
        m_netCodes = [(0, 0), (1, 1), (2, 2)],
        m_newNetCode = 2, m_DisplayNetnamesDirty = False\<rparr>
     = (\<lparr>m_netNames = [('''', 0), (''VCC'', 2)], m_netCodes = [(0, 0), (2, 2)],
         m_newNetCode = 2, m_DisplayNetnamesDirty = True\<rparr>,
        Some [9, 1])
   \<and> set (registry_records
        \<lparr>m_netNames = [('''', 0), (''VCC'', 2)], m_netCodes = [(0, 0), (2, 2)],
         m_newNetCode = 2, m_DisplayNetnamesDirty = True\<rparr>) = {0, 2}"
proof -
  let ?h = "no_items
        (0 := \<lparr>m_netCode = 0, m_netname = '''', m_isCurrent = True\<rparr>,
         1 := \<lparr>m_netCode = 1, m_netname = ''GND'', m_isCurrent = False\<rparr>,
         2 := \<lparr>m_netCode = 2, m_netname = ''VCC'', m_isCurrent = True\<rparr>)"
  let ?L = "\<lparr>m_netNames = [('''', 0), (''GND'', 1), (''VCC'', 2)],
        m_netCodes = [(0, 0), (1, 1), (2, 2)],
        m_newNetCode = 2, m_DisplayNetnamesDirty = False\<rparr>"
  let ?L' = "\<lparr>m_netNames = [('''', 0), (''VCC'', 2)], m_netCodes = [(0, 0), (2, 2)],
         m_newNetCode = 2, m_DisplayNetnamesDirty = True\<rparr>"
  have a: "registry_consistent ?h ?L" by (simp add: registry_consistent_def)
  have b: "RemoveUnusedNets ?h (Some [9]) ?L = (?L', Some [9, 1])"
    by (simp add: RemoveUnusedNets_def)
  have "{p \<in> set (registry_records ?L). m_isCurrent (?h p)} = {0, 2}"
    by (auto simp: registry_records_def)
  with RemoveUnusedNets_partitions [OF a b]
  have "set (registry_records ?L') = {0, 2}" by (simp only:)
  with a b show ?thesis by (simp only:)
qed

section \<open>Allocation of codes\<close>

lemma getFreeNetCode_loop_above: "max n 0 < getFreeNetCode_loop codes n"
proof -
  from scan_from_spec [of "max n 0 + 1" codes]
  have "max n 0 + 1 \<le> scan_from codes (max n 0 + 1)" by blast
  then show ?thesis unfolding getFreeNetCode_loop_scan by linarith
qed

lemma RemoveUnusedNets_loop_hint:
  "m_newNetCode (fst (RemoveUnusedNets_loop h rest (L, aCommit))) = m_newNetCode L"
  by (induction rest arbitrary: L aCommit) auto

lemma RemoveUnusedNets_hint:
  "m_newNetCode (fst (RemoveUnusedNets h aCommit L)) = m_newNetCode L"
  by (simp add: RemoveUnusedNets_def RemoveUnusedNets_loop_hint)

lemma AppendNet_hint_mono:
  assumes "AppendNet p (h, L) = Inr (h', L')"
  shows "m_newNetCode L \<le> m_newNetCode L'"
proof (cases "GetNetItem_name L (m_netname (h p))")
  case (Some s)
  with assms show ?thesis by auto
next
  case None
  from assms AppendNet_fresh [of L h p, OF None]
  have "m_newNetCode L' =
          (if m_netCode (h p) \<noteq> int (length (m_netCodes L)) \<or> m_netCode (h p) < 0
           then chosen_code h L p else m_newNetCode L)"
    by (auto split: if_splits)
  moreover have "m_netCode (h p) \<noteq> int (length (m_netCodes L)) \<or> m_netCode (h p) < 0
       \<Longrightarrow> m_newNetCode L < chosen_code h L p"
    using getFreeNetCode_loop_above [of "m_newNetCode L" "m_netCodes L"]
    by (simp add: chosen_code_def)
  ultimately show ?thesis by (cases "m_netCode (h p) \<noteq> int (length (m_netCodes L)) \<or> m_netCode (h p) < 0") simp_all
qed

lemma step_hint_mono:
  assumes st: "step e (h, L) = Inr (h', L')"
    and keep: "removes_keep_hint [e] (h, L)"
  shows "m_newNetCode L \<le> m_newNetCode L'"
proof (cases e)
  case (Append p)
  with st have "AppendNet p (h, L) = Inr (h', L')" by simp
  then show ?thesis by (rule AppendNet_hint_mono)
next
  case (Remove p)
  with st keep show ?thesis by simp
next
  case (Prune aCommit)
  with st have "L' = fst (RemoveUnusedNets h aCommit L)" by auto
  then show ?thesis by (simp add: RemoveUnusedNets_hint)
next
  case (SetIsCurrent p b)
  with st show ?thesis by auto
qed

lemma run_hint_mono:
  "run es (h, L) = Inr (h', L') \<Longrightarrow> removes_keep_hint es (h, L)
     \<Longrightarrow> m_newNetCode L \<le> m_newNetCode L'"
proof (induction es arbitrary: h L)
  case Nil
  then show ?case by simp
next
  case (Cons e es)
  from Cons.prems(1) obtain h1 L1 where s1: "step e (h, L) = Inr (h1, L1)"
    and r1: "run es (h1, L1) = Inr (h', L')"
    by (auto split: sum.splits)
  from Cons.prems(2) s1 have k1: "removes_keep_hint [e] (h, L)"
    and k2: "removes_keep_hint es (h1, L1)"
    by simp_all
  from step_hint_mono [OF s1 k1] Cons.IH [OF r1 k2] show ?case by linarith
qed

lemma AppendNet_ndebug_hint_mono:
  "m_newNetCode L \<le> m_newNetCode (snd (AppendNet_ndebug p (h, L)))"
proof (cases "GetNetItem_name L (m_netname (h p))")
  case (Some s)
  then show ?thesis by simp
next
  case None
  have "m_newNetCode L < fst (getFreeNetCode L)"
    using getFreeNetCode_loop_above [of "m_newNetCode L" "m_netCodes L"]
    by (simp add: getFreeNetCode_def Let_def)
  with None show ?thesis
    by (simp add: getFreeNetCode_def Let_def split: prod.splits)
qed

lemma step_ndebug_hint_mono:
  assumes keep: "removes_keep_hint_ndebug [e] (h, L)"
  shows "m_newNetCode L \<le> m_newNetCode (snd (step_ndebug e (h, L)))"
proof (cases e)
  case (Append p)
  show ?thesis unfolding Append by (simp only: step_ndebug.simps AppendNet_ndebug_hint_mono)
next
  case (Remove p)
  with keep show ?thesis by simp
next
  case (Prune aCommit)
  then show ?thesis by (simp add: RemoveUnusedNets_hint)
next
  case (SetIsCurrent p b)
  then show ?thesis by simp
qed

lemma run_ndebug_hint_mono:
  "removes_keep_hint_ndebug es (h, L)
     \<Longrightarrow> m_newNetCode L \<le> m_newNetCode (snd (run_ndebug es (h, L)))"
proof (induction es arbitrary: h L)
  case Nil
  then show ?case by simp
next
  case (Cons e es)
  obtain h1 L1 where s1: "step_ndebug e (h, L) = (h1, L1)"
    by (cases "step_ndebug e (h, L)")
  from Cons.prems s1 have k1: "removes_keep_hint_ndebug [e] (h, L)"
    and k2: "removes_keep_hint_ndebug es (h1, L1)"
    by simp_all
  from step_ndebug_hint_mono [OF k1] s1 have "m_newNetCode L \<le> m_newNetCode L1" by simp
  moreover from Cons.IH [OF k2] s1
  have "m_newNetCode L1 \<le> m_newNetCode (snd (run_ndebug (e # es) (h, L)))" by simp
  ultimately show ?case by linarith
qed

text \<open>
  Claim C5 says that the scan of \<open>getFreeNetCode\<close> starts from \<open>max(nextCodeHint, 0)\<close>.
  The loop increments before it tests, so the first code tested is one above that value:
  \<open>getFreeNetCode\<close> returns the lowest code strictly above \<open>max(m_newNetCode, 0)\<close> that
  the by-code index does not hold, although \<open>max(m_newNetCode, 0)\<close> itself may be free.
  Below, the registry is constructed, a record "A" is appended (code 1, hint 1), marked as
  not current and pruned; the hint is still 1 and code 1 is free. The allocation as the
  claim words it returns 1; \<open>getFreeNetCode\<close> returns 2.
\<close>

theorem getFreeNetCode_skips_hint_counterexample:
  "registry_of (run_new 0 (no_items(1 := \<lparr>m_netCode = - 1, m_netname = ''A'', m_isCurrent = True\<rparr>))
      [Append 1, SetIsCurrent 1 False, Prune None])
     = Some \<lparr>m_netNames = [('''', 0)], m_netCodes = [(0, 0)], m_newNetCode = 1,
             m_DisplayNetnamesDirty = True\<rparr>
   \<and> map_count [(0 :: int, 0 :: item_ptr)] (max 1 0) = 0
   \<and> fst (allocateFreeCode_spec
       \<lparr>m_netNames = [('''', 0)], m_netCodes = [(0, 0)], m_newNetCode = 1,
        m_DisplayNetnamesDirty = True\<rparr>) = 1
   \<and> fst (getFreeNetCode
       \<lparr>m_netNames = [('''', 0)], m_netCodes = [(0, 0)], m_newNetCode = 1,
        m_DisplayNetnamesDirty = True\<rparr>) = 2"
  by (simp add: run_new_def NETINFO_LIST_ctor_eq registry_of_def NETINFO_ITEM_new_def
      no_items_def GetNetItem_name_def GetNetItem_code_def map_find_def map_count_def
      getFreeNetCode_def getFreeNetCode_loop.simps RemoveUnusedNets_def
      allocateFreeCode_spec_def scan_from.simps)

text \<open>
  Claim C5, amended: \<open>getFreeNetCode\<close> scans upward starting from
  \<open>max(m_newNetCode, 0) + 1\<close> until it reaches a code that the by-code index does not hold:
  the result is above \<open>max(m_newNetCode, 0)\<close>, it is not in the index, and every code
  between the two is. The result is stored as the new hint and nothing else changes. Across
  calls the returned codes increase unless the hint was lowered by \<open>RemoveNet\<close>: from any
  registry that holds the hint of this call, after any run of operations in which no
  \<open>RemoveNet\<close> lowers the hint, the hint is not below the code returned here and the next
  call returns a strictly larger code. This is stated twice, for a run of the operations with
  assertions that returns a registry, and for a run of the operations without assertions,
  which always does.
\<close>

theorem getFreeNetCode_scans_above_hint:
  "fst (getFreeNetCode L) = scan_from (m_netCodes L) (max (m_newNetCode L) 0 + 1)
   \<and> max (m_newNetCode L) 0 < fst (getFreeNetCode L)
   \<and> map_count (m_netCodes L) (fst (getFreeNetCode L)) = 0
   \<and> (\<forall>k. max (m_newNetCode L) 0 < k \<and> k < fst (getFreeNetCode L)
          \<longrightarrow> map_count (m_netCodes L) k \<noteq> 0)
   \<and> snd (getFreeNetCode L) = L\<lparr>m_newNetCode := fst (getFreeNetCode L)\<rparr>
   \<and> (\<forall>h es h' L1 L'.
          m_newNetCode L1 = fst (getFreeNetCode L) \<and> removes_keep_hint es (h, L1)
          \<and> run es (h, L1) = Inr (h', L')
          \<longrightarrow> fst (getFreeNetCode L) \<le> m_newNetCode L'
              \<and> fst (getFreeNetCode L) < fst (getFreeNetCode L'))
   \<and> (\<forall>h es L1.
          m_newNetCode L1 = fst (getFreeNetCode L) \<and> removes_keep_hint_ndebug es (h, L1)
          \<longrightarrow> fst (getFreeNetCode L) \<le> m_newNetCode (snd (run_ndebug es (h, L1)))
              \<and> fst (getFreeNetCode L)
                  < fst (getFreeNetCode (snd (run_ndebug es (h, L1)))))"
proof -
  let ?a = "max (m_newNetCode L) 0"
  let ?c = "fst (getFreeNetCode L)"
  have c: "?c = scan_from (m_netCodes L) (?a + 1)"
    by (simp add: getFreeNetCode_def getFreeNetCode_loop_scan Let_def)
  from scan_from_spec [of "?a + 1" "m_netCodes L"]
  have s: "?a + 1 \<le> ?c" "map_count (m_netCodes L) ?c = 0"
    "\<forall>k. ?a + 1 \<le> k \<and> k < ?c \<longrightarrow> map_count (m_netCodes L) k \<noteq> 0"
    unfolding c by simp_all
  have lt: "?a < ?c" using s(1) by linarith
  have between: "\<forall>k. ?a < k \<and> k < ?c \<longrightarrow> map_count (m_netCodes L) k \<noteq> 0"
  proof (intro allI impI)
    fix k assume "?a < k \<and> k < ?c"
    then have "?a + 1 \<le> k \<and> k < ?c" by linarith
    with s(3) show "map_count (m_netCodes L) k \<noteq> 0" by blast
  qed
  have upd: "snd (getFreeNetCode L) = L\<lparr>m_newNetCode := ?c\<rparr>"
    by (simp add: getFreeNetCode_def Let_def)
  have above: "max (m_newNetCode M) 0 < fst (getFreeNetCode M)" for M
    using getFreeNetCode_loop_above [of "m_newNetCode M" "m_netCodes M"]
    by (simp add: getFreeNetCode_def Let_def)
  have later: "\<forall>h es h' L1 L'.
          m_newNetCode L1 = ?c \<and> removes_keep_hint es (h, L1) \<and> run es (h, L1) = Inr (h', L')
          \<longrightarrow> ?c \<le> m_newNetCode L' \<and> ?c < fst (getFreeNetCode L')"
  proof (intro allI impI, elim conjE)
    fix h :: store and es h' and L1 L' :: NETINFO_LIST
    assume hint: "m_newNetCode L1 = ?c" and keep: "removes_keep_hint es (h, L1)"
      and r: "run es (h, L1) = Inr (h', L')"
    from run_hint_mono [OF r keep] hint have le: "?c \<le> m_newNetCode L'" by simp
    with above [of L'] show "?c \<le> m_newNetCode L' \<and> ?c < fst (getFreeNetCode L')"
      by linarith
  qed
  have later_ndebug: "\<forall>h es L1.
          m_newNetCode L1 = ?c \<and> removes_keep_hint_ndebug es (h, L1)
          \<longrightarrow> ?c \<le> m_newNetCode (snd (run_ndebug es (h, L1)))
              \<and> ?c < fst (getFreeNetCode (snd (run_ndebug es (h, L1))))"
  proof (intro allI impI, elim conjE)
    fix h :: store and es and L1 :: NETINFO_LIST
    assume hint: "m_newNetCode L1 = ?c" and keep: "removes_keep_hint_ndebug es (h, L1)"
    from run_ndebug_hint_mono [OF keep] hint
    have le: "?c \<le> m_newNetCode (snd (run_ndebug es (h, L1)))" by simp
    with above [of "snd (run_ndebug es (h, L1))"]
    show "?c \<le> m_newNetCode (snd (run_ndebug es (h, L1)))
              \<and> ?c < fst (getFreeNetCode (snd (run_ndebug es (h, L1))))"
      by linarith
  qed
  from c lt s(2) between upd later later_ndebug show ?thesis by (intro conjI)
qed

theorem getFreeNetCode_scans_above_hint_witness:
  "fst (getFreeNetCode
      \<lparr>m_netNames = [('''', 0), (''A'', 1), (''B'', 3)], m_netCodes = [(0, 0), (1, 1), (3, 3)],
       m_newNetCode = 0, m_DisplayNetnamesDirty = False\<rparr>) = 2
   \<and> map_count [(0, 0), (1, 1), (3, 3 :: item_ptr)] (1 :: int) \<noteq> 0
   \<and> m_newNetCode (snd (getFreeNetCode
      \<lparr>m_netNames = [('''', 0), (''A'', 1), (''B'', 3)], m_netCodes = [(0, 0), (1, 1), (3, 3)],
       m_newNetCode = 0, m_DisplayNetnamesDirty = False\<rparr>)) = 2
   \<and> removes_keep_hint [Remove 9, Prune None, Append 6]
        (no_items
          (0 := \<lparr>m_netCode = 0, m_netname = '''', m_isCurrent = True\<rparr>,
           1 := \<lparr>m_netCode = 1, m_netname = ''A'', m_isCurrent = True\<rparr>,
           3 := \<lparr>m_netCode = 3, m_netname = ''B'', m_isCurrent = True\<rparr>,
           5 := \<lparr>m_netCode = 2, m_netname = ''C'', m_isCurrent = False\<rparr>,
           6 := \<lparr>m_netCode = - 1, m_netname = ''D'', m_isCurrent = True\<rparr>),
         \<lparr>m_netNames = [('''', 0), (''A'', 1), (''B'', 3), (''C'', 5)],
          m_netCodes = [(0, 0), (1, 1), (2, 5), (3, 3)],
          m_newNetCode = 2, m_DisplayNetnamesDirty = True\<rparr>)
   \<and> (\<exists>h' L'. run [Remove 9, Prune None, Append 6]
        (no_items
          (0 := \<lparr>m_netCode = 0, m_netname = '''', m_isCurrent = True\<rparr>,
           1 := \<lparr>m_netCode = 1, m_netname = ''A'', m_isCurrent = True\<rparr>,
           3 := \<lparr>m_netCode = 3, m_netname = ''B'', m_isCurrent = True\<rparr>,
           5 := \<lparr>m_netCode = 2, m_netname = ''C'', m_isCurrent = False\<rparr>,
           6 := \<lparr>m_netCode = - 1, m_netname = ''D'', m_isCurrent = True\<rparr>),
         \<lparr>m_netNames = [('''', 0), (''A'', 1), (''B'', 3), (''C'', 5)],
          m_netCodes = [(0, 0), (1, 1), (2, 5), (3, 3)],
          m_newNetCode = 2, m_DisplayNetnamesDirty = True\<rparr>) = Inr (h', L')
        \<and> m_netCodes L' = [(0, 0), (1, 1), (3, 3), (4, 6)]
        \<and> 2 \<le> m_newNetCode L' \<and> 2 < fst (getFreeNetCode L'))
   \<and> removes_keep_hint_ndebug [Remove 9, Prune None, Append 6]
        (no_items
          (0 := \<lparr>m_netCode = 0, m_netname = '''', m_isCurrent = True\<rparr>,
           1 := \<lparr>m_netCode = 1, m_netname = ''A'', m_isCurrent = True\<rparr>,
           3 := \<lparr>m_netCode = 3, m_netname = ''B'', m_isCurrent = True\<rparr>,
           5 := \<lparr>m_netCode = 2, m_netname = ''C'', m_isCurrent = False\<rparr>,
           6 := \<lparr>m_netCode = - 1, m_netname = ''D'', m_isCurrent = True\<rparr>),
         \<lparr>m_netNames = [('''', 0), (''A'', 1), (''B'', 3), (''C'', 5)],
          m_netCodes = [(0, 0), (1, 1), (2, 5), (3, 3)],
          m_newNetCode = 2, m_DisplayNetnamesDirty = True\<rparr>)
   \<and> m_netCodes (snd (run_ndebug [Remove 9, Prune None, Append 6]
        (no_items
          (0 := \<lparr>m_netCode = 0, m_netname = '''', m_isCurrent = True\<rparr>,
           1 := \<lparr>m_netCode = 1, m_netname = ''A'', m_isCurrent = True\<rparr>,
           3 := \<lparr>m_netCode = 3, m_netname = ''B'', m_isCurrent = True\<rparr>,
           5 := \<lparr>m_netCode = 2, m_netname = ''C'', m_isCurrent = False\<rparr>,
           6 := \<lparr>m_netCode = - 1, m_netname = ''D'', m_isCurrent = True\<rparr>),
         \<lparr>m_netNames = [('''', 0), (''A'', 1), (''B'', 3), (''C'', 5)],
          m_netCodes = [(0, 0), (1, 1), (2, 5), (3, 3)],
          m_newNetCode = 2, m_DisplayNetnamesDirty = True\<rparr>)))
       = [(0, 0), (1, 1), (3, 3), (4, 6)]
   \<and> 2 < fst (getFreeNetCode (snd (run_ndebug [Remove 9, Prune None, Append 6]
        (no_items
          (0 := \<lparr>m_netCode = 0, m_netname = '''', m_isCurrent = True\<rparr>,
           1 := \<lparr>m_netCode = 1, m_netname = ''A'', m_isCurrent = True\<rparr>,
           3 := \<lparr>m_netCode = 3, m_netname = ''B'', m_isCurrent = True\<rparr>,
           5 := \<lparr>m_netCode = 2, m_netname = ''C'', m_isCurrent = False\<rparr>,
           6 := \<lparr>m_netCode = - 1, m_netname = ''D'', m_isCurrent = True\<rparr>),
         \<lparr>m_netNames = [('''', 0), (''A'', 1), (''B'', 3), (''C'', 5)],
          m_netCodes = [(0, 0), (1, 1), (2, 5), (3, 3)],
          m_newNetCode = 2, m_DisplayNetnamesDirty = True\<rparr>))))"
proof -
  let ?L = "\<lparr>m_netNames = [('''', 0), (''A'', 1), (''B'', 3)],
       m_netCodes = [(0, 0), (1, 1), (3, 3)],
       m_newNetCode = 0, m_DisplayNetnamesDirty = False\<rparr>"
  let ?h = "no_items
          (0 := \<lparr>m_netCode = 0, m_netname = '''', m_isCurrent = True\<rparr>,
           1 := \<lparr>m_netCode = 1, m_netname = ''A'', m_isCurrent = True\<rparr>,
           3 := \<lparr>m_netCode = 3, m_netname = ''B'', m_isCurrent = True\<rparr>,
           5 := \<lparr>m_netCode = 2, m_netname = ''C'', m_isCurrent = False\<rparr>,
           6 := \<lparr>m_netCode = - 1, m_netname = ''D'', m_isCurrent = True\<rparr>)"
  let ?L1 = "\<lparr>m_netNames = [('''', 0), (''A'', 1), (''B'', 3), (''C'', 5)],
          m_netCodes = [(0, 0), (1, 1), (2, 5), (3, 3)],
          m_newNetCode = 2, m_DisplayNetnamesDirty = True\<rparr>"
  let ?es = "[Remove 9, Prune None, Append 6]"
  have v: "fst (getFreeNetCode ?L) = 2"
    by (simp add: getFreeNetCode_def getFreeNetCode_loop.simps map_count_def)
  from getFreeNetCode_scans_above_hint [of ?L]
  have k: "\<forall>k. max (m_newNetCode ?L) 0 < k \<and> k < fst (getFreeNetCode ?L)
              \<longrightarrow> map_count (m_netCodes ?L) k \<noteq> 0"
    and u: "snd (getFreeNetCode ?L) = ?L\<lparr>m_newNetCode := fst (getFreeNetCode ?L)\<rparr>"
    and l: "\<forall>h es h' L1 L'.
          m_newNetCode L1 = fst (getFreeNetCode ?L) \<and> removes_keep_hint es (h, L1)
          \<and> run es (h, L1) = Inr (h', L')
          \<longrightarrow> fst (getFreeNetCode ?L) \<le> m_newNetCode L'
              \<and> fst (getFreeNetCode ?L) < fst (getFreeNetCode L')"
    and ln: "\<forall>h es L1.
          m_newNetCode L1 = fst (getFreeNetCode ?L) \<and> removes_keep_hint_ndebug es (h, L1)
          \<longrightarrow> fst (getFreeNetCode ?L) \<le> m_newNetCode (snd (run_ndebug es (h, L1)))
              \<and> fst (getFreeNetCode ?L)
                  < fst (getFreeNetCode (snd (run_ndebug es (h, L1))))"
    by blast+
  from k v have 1: "map_count [(0, 0), (1, 1), (3, 3 :: item_ptr)] (1 :: int) \<noteq> 0"
    by simp
  from u v have 2: "m_newNetCode (snd (getFreeNetCode ?L)) = 2" by simp
  have keep: "removes_keep_hint ?es (?h, ?L1)"
    by (simp add: no_items_def RemoveNet_def RemoveUnusedNets_def
        GetNetItem_name_def GetNetItem_code_def map_find_def map_count_def
        getFreeNetCode_def getFreeNetCode_loop.simps)
  have "\<exists>h' L'. run ?es (?h, ?L1) = Inr (h', L')
          \<and> m_netCodes L' = [(0, 0), (1, 1), (3, 3), (4, 6)]"
    by (simp add: no_items_def RemoveNet_def RemoveUnusedNets_def
        GetNetItem_name_def GetNetItem_code_def map_find_def map_count_def
        getFreeNetCode_def getFreeNetCode_loop.simps)
  then obtain h' L' where r: "run ?es (?h, ?L1) = Inr (h', L')"
    and c: "m_netCodes L' = [(0, 0), (1, 1), (3, 3), (4, 6)]" by blast
  have hint: "m_newNetCode ?L1 = fst (getFreeNetCode ?L)" using v by simp
  from l hint keep r
  have "fst (getFreeNetCode ?L) \<le> m_newNetCode L'
          \<and> fst (getFreeNetCode ?L) < fst (getFreeNetCode L')"
    by blast
  with v have 3: "2 \<le> m_newNetCode L'" "2 < fst (getFreeNetCode L')" by simp_all
  have ex: "\<exists>h' L'. run ?es (?h, ?L1) = Inr (h', L')
        \<and> m_netCodes L' = [(0, 0), (1, 1), (3, 3), (4, 6)]
        \<and> 2 \<le> m_newNetCode L' \<and> 2 < fst (getFreeNetCode L')"
    by (rule exI [of _ h'], rule exI [of _ L']) (intro conjI r c 3)
  have keepn: "removes_keep_hint_ndebug ?es (?h, ?L1)"
    by (simp add: no_items_def RemoveNet_ndebug_def RemoveUnusedNets_def
        GetNetItem_name_def map_find_def map_count_def
        getFreeNetCode_def getFreeNetCode_loop.simps)
  have cn: "m_netCodes (snd (run_ndebug ?es (?h, ?L1))) = [(0, 0), (1, 1), (3, 3), (4, 6)]"
    by (simp add: no_items_def RemoveNet_ndebug_def RemoveUnusedNets_def
        GetNetItem_name_def map_find_def map_count_def
        getFreeNetCode_def getFreeNetCode_loop.simps)
  from ln hint keepn
  have "fst (getFreeNetCode ?L) < fst (getFreeNetCode (snd (run_ndebug ?es (?h, ?L1))))"
    by blast
  with v have 4: "2 < fst (getFreeNetCode (snd (run_ndebug ?es (?h, ?L1))))" by simp
  from v 1 2 keep ex keepn cn 4 show ?thesis by (intro conjI)
qed

lemma map_find_NETCODES_insert:
  "k \<notin> fst ` set m \<Longrightarrow> map_find (NETCODES_insert (k, v) m) k = Some v"
  by (induction m) (auto simp: map_find_def)

lemma map_count_map_find: "map_count m k = 0 \<longleftrightarrow> map_find m k = None"
  by (simp add: map_count_zero_iff map_find_None_iff)

text \<open>
  Claim C6 says that the code freed by \<open>RemoveNet\<close> is given to the next appended record
  whenever it was the lowest code not in use. \<open>getFreeNetCode\<close> never returns 0 (it
  increments after clamping the hint to 0), so the claim fails for the record with code 0:
  after the reserved record of a new registry is removed, 0 is the lowest free code, and a
  record appended with code \<open>-1\<close> gets code 1.
\<close>

theorem code_0_not_reused_counterexample:
  "code_in 0 (run_new 0 (no_items(1 := \<lparr>m_netCode = - 1, m_netname = ''A'', m_isCurrent = True\<rparr>)) [])
     = Some 0
   \<and> registry_of (run_new 0 (no_items(1 := \<lparr>m_netCode = - 1, m_netname = ''A'', m_isCurrent = True\<rparr>))
        [Remove 0])
     = Some \<lparr>m_netNames = [], m_netCodes = [], m_newNetCode = - 1, m_DisplayNetnamesDirty = True\<rparr>
   \<and> lowest_free [] = 0
   \<and> code_in 1 (run_new 0 (no_items(1 := \<lparr>m_netCode = - 1, m_netname = ''A'', m_isCurrent = True\<rparr>))
        [Remove 0]) = Some (- 1)
   \<and> code_in 1 (run_new 0 (no_items(1 := \<lparr>m_netCode = - 1, m_netname = ''A'', m_isCurrent = True\<rparr>))
        [Remove 0, Append 1]) = Some 1"
  by (simp add: run_new_def NETINFO_LIST_ctor_eq registry_of_def code_in_def NETINFO_ITEM_new_def
      no_items_def GetNetItem_name_def GetNetItem_code_def map_find_def map_count_def
      getFreeNetCode_def getFreeNetCode_loop.simps RemoveNet_def lowest_free_def scan_from.simps)

text \<open>
  Claim C6, amended: \<open>RemoveNet\<close> of a record \<open>r\<close> that the by-code index holds returns
  normally and lowers the hint to \<open>min(m_newNetCode, r.code - 1)\<close>. If \<open>r.code\<close> is then the
  lowest code not in use and is not 0, \<open>AppendNet\<close> of a record \<open>r2\<close> with a negative code,
  whose name is not registered, returns normally, gives \<open>r2\<close> the code of \<open>r\<close> and files
  \<open>r2\<close> under that code.
\<close>

theorem freed_code_reused:
  assumes present: "r \<in> snd ` set (m_netCodes L)"
  shows "\<exists>L1. RemoveNet r h L = Inr L1
           \<and> m_newNetCode L1 = min (m_newNetCode L) (m_netCode (h r) - 1)
           \<and> (lowest_free (m_netCodes L1) = m_netCode (h r) \<and> m_netCode (h r) \<noteq> 0
                \<and> m_netCode (h r2) < 0 \<and> GetNetItem_name L1 (m_netname (h r2)) = None
              \<longrightarrow> (\<exists>h' L'. AppendNet r2 (h, L1) = Inr (h', L')
                     \<and> m_netCode (h' r2) = m_netCode (h r)
                     \<and> GetNetItem_code L' (m_netCode (h r)) = Some r2))"
proof -
  let ?c = "m_netCode (h r)"
  from present have "erase_first r (m_netCodes L) \<noteq> None"
    by (simp add: erase_first_None_iff)
  then obtain cs where cs: "erase_first r (m_netCodes L) = Some cs" by auto
  define L1 where "L1 = L\<lparr>m_netCodes := cs,
            m_netNames := (case erase_first r (m_netNames L) of None \<Rightarrow> m_netNames L | Some ns \<Rightarrow> ns),
            m_newNetCode := min (m_newNetCode L) (?c - 1),
            m_DisplayNetnamesDirty := True\<rparr>"
  have rm: "RemoveNet r h L = Inr L1"
    unfolding L1_def by (rule RemoveNet_found [OF cs])
  have hint: "m_newNetCode L1 = min (m_newNetCode L) (?c - 1)" by (simp add: L1_def)
  have "\<exists>h' L'. AppendNet r2 (h, L1) = Inr (h', L') \<and> m_netCode (h' r2) = ?c
            \<and> GetNetItem_code L' ?c = Some r2"
    if low: "lowest_free (m_netCodes L1) = ?c" and nz: "?c \<noteq> 0"
      and neg: "m_netCode (h r2) < 0"
      and fresh: "GetNetItem_name L1 (m_netname (h r2)) = None"
  proof -
    from scan_from_spec [of 0 "m_netCodes L1"] low
    have s: "0 \<le> ?c" "map_count (m_netCodes L1) ?c = 0"
      "\<And>k. 0 \<le> k \<Longrightarrow> k < ?c \<Longrightarrow> map_count (m_netCodes L1) k \<noteq> 0"
      by (simp_all add: lowest_free_def)
    let ?a = "max (m_newNetCode L1) 0 + 1"
    have a: "?a \<le> ?c" "0 \<le> ?a" using s(1) nz hint by linarith+
    have "scan_from (m_netCodes L1) ?a = ?c"
    proof (rule scan_from_unique)
      show "?a \<le> ?c" by (rule a(1))
      show "map_count (m_netCodes L1) ?c = 0" by (rule s(2))
      fix k assume "?a \<le> k" "k < ?c"
      with a(2) show "map_count (m_netCodes L1) k \<noteq> 0" by (intro s(3)) linarith+
    qed
    then have ch: "chosen_code h L1 r2 = ?c"
      using neg by (simp add: chosen_code_def getFreeNetCode_loop_scan)
    from s(2) have free: "map_find (m_netCodes L1) ?c = None"
      by (simp add: map_count_map_find)
    then have "?c \<notin> fst ` set (m_netCodes L1)" by (simp add: map_find_None_iff)
    then have look: "map_find (NETCODES_insert (?c, r2) (m_netCodes L1)) ?c = Some r2"
      by (rule map_find_NETCODES_insert)
    from AppendNet_fresh [of L1 h r2, OF fresh] free look show ?thesis
      by (simp add: ch GetNetItem_code_def)
  qed
  then have "lowest_free (m_netCodes L1) = ?c \<and> ?c \<noteq> 0
                \<and> m_netCode (h r2) < 0 \<and> GetNetItem_name L1 (m_netname (h r2)) = None
              \<longrightarrow> (\<exists>h' L'. AppendNet r2 (h, L1) = Inr (h', L')
                     \<and> m_netCode (h' r2) = ?c \<and> GetNetItem_code L' ?c = Some r2)"
    by (intro impI) (elim conjE)
  with rm hint show ?thesis by (intro exI [of _ L1] conjI)
qed

theorem freed_code_reused_witness:
  "2 \<in> snd ` set [(0 :: int, 0 :: item_ptr), (1, 1), (2, 2), (3, 3)]
   \<and> registry_of (run [Remove 2]
       (no_items
         (0 := \<lparr>m_netCode = 0, m_netname = '''', m_isCurrent = True\<rparr>,
          1 := \<lparr>m_netCode = 1, m_netname = ''A'', m_isCurrent = True\<rparr>,
          2 := \<lparr>m_netCode = 2, m_netname = ''B'', m_isCurrent = True\<rparr>,
          3 := \<lparr>m_netCode = 3, m_netname = ''C'', m_isCurrent = True\<rparr>,
          4 := \<lparr>m_netCode = - 1, m_netname = ''B'', m_isCurrent = True\<rparr>),
        \<lparr>m_netNames = [('''', 0), (''A'', 1), (''B'', 2), (''C'', 3)],
         m_netCodes = [(0, 0), (1, 1), (2, 2), (3, 3)],
         m_newNetCode = 3, m_DisplayNetnamesDirty = False\<rparr>))
     = Some \<lparr>m_netNames = [('''', 0), (''A'', 1), (''C'', 3)],
         m_netCodes = [(0, 0), (1, 1), (3, 3)],
         m_newNetCode = 1, m_DisplayNetnamesDirty = True\<rparr>
   \<and> lowest_free [(0, 0), (1, 1), (3, 3)] = 2
   \<and> code_in 4 (run [Remove 2, Append 4]
       (no_items
         (0 := \<lparr>m_netCode = 0, m_netname = '''', m_isCurrent = True\<rparr>,
          1 := \<lparr>m_netCode = 1, m_netname = ''A'', m_isCurrent = True\<rparr>,
          2 := \<lparr>m_netCode = 2, m_netname = ''B'', m_isCurrent = True\<rparr>,
          3 := \<lparr>m_netCode = 3, m_netname = ''C'', m_isCurrent = True\<rparr>,
          4 := \<lparr>m_netCode = - 1, m_netname = ''B'', m_isCurrent = True\<rparr>),
        \<lparr>m_netNames = [('''', 0), (''A'', 1), (''B'', 2), (''C'', 3)],
         m_netCodes = [(0, 0), (1, 1), (2, 2), (3, 3)],
         m_newNetCode = 3, m_DisplayNetnamesDirty = False\<rparr>)) = Some 2"
proof -
  let ?h = "no_items
         (0 := \<lparr>m_netCode = 0, m_netname = '''', m_isCurrent = True\<rparr>,
          1 := \<lparr>m_netCode = 1, m_netname = ''A'', m_isCurrent = True\<rparr>,
          2 := \<lparr>m_netCode = 2, m_netname = ''B'', m_isCurrent = True\<rparr>,
          3 := \<lparr>m_netCode = 3, m_netname = ''C'', m_isCurrent = True\<rparr>,
          4 := \<lparr>m_netCode = - 1, m_netname = ''B'', m_isCurrent = True\<rparr>)"
  let ?L = "\<lparr>m_netNames = [('''', 0), (''A'', 1), (''B'', 2), (''C'', 3)],
         m_netCodes = [(0, 0), (1, 1), (2, 2), (3, 3)],
         m_newNetCode = 3, m_DisplayNetnamesDirty = False\<rparr>"
  let ?L1 = "\<lparr>m_netNames = [('''', 0), (''A'', 1), (''C'', 3)],
         m_netCodes = [(0, 0), (1, 1), (3, 3)],
         m_newNetCode = 1, m_DisplayNetnamesDirty = True\<rparr>"
  have p: "2 \<in> snd ` set (m_netCodes ?L)" by simp
  have rm: "RemoveNet 2 ?h ?L = Inr ?L1" by (simp add: RemoveNet_def)
  have low: "lowest_free (m_netCodes ?L1) = m_netCode (?h 2)"
    by (simp add: lowest_free_def scan_from.simps map_count_def)
  have pre: "m_netCode (?h 2) \<noteq> 0" "m_netCode (?h 4) < 0"
    "GetNetItem_name ?L1 (m_netname (?h 4)) = None"
    by (simp_all add: GetNetItem_name_def map_find_def)
  from freed_code_reused [OF p, of ?h 4] rm low pre
  obtain h' L' where "AppendNet 4 (?h, ?L1) = Inr (h', L')" "m_netCode (h' 4) = m_netCode (?h 2)"
    by auto
  then have "code_in 4 (run [Remove 2, Append 4] (?h, ?L)) = Some 2"
    using rm by (simp add: code_in_def)
  moreover have "registry_of (run [Remove 2] (?h, ?L)) = Some ?L1"
    using rm by (simp add: registry_of_def)
  moreover have "lowest_free [(0, 0), (1, 1), (3, 3)] = 2"
    using low by simp
  moreover have "2 \<in> snd ` set [(0 :: int, 0 :: item_ptr), (1, 1), (2, 2), (3, 3)]"
    by simp
  ultimately show ?thesis by blast
qed

section \<open>The reserved record\<close>

lemma AppendNet_store_frame:
  assumes "AppendNet p (h, L) = Inr (h', L')"
  shows "m_netname (h' q) = m_netname (h q)" and "m_isCurrent (h' q) = m_isCurrent (h q)"
    and "q \<noteq> p \<Longrightarrow> h' q = h q"
proof -
  have "\<exists>c. h' = h(p := (h p)\<lparr>m_netCode := c\<rparr>)"
  proof (cases "GetNetItem_name L (m_netname (h p))")
    case (Some s)
    with assms show ?thesis by auto
  next
    case None
    from assms AppendNet_fresh [of L h p, OF None] show ?thesis
      by (auto split: if_splits)
  qed
  then obtain c where h': "h' = h(p := (h p)\<lparr>m_netCode := c\<rparr>)" by blast
  show "m_netname (h' q) = m_netname (h q)" by (simp add: h')
  show "m_isCurrent (h' q) = m_isCurrent (h q)" by (simp add: h')
  show "q \<noteq> p \<Longrightarrow> h' q = h q" by (simp add: h')
qed

lemma filter_eq_singleton:
  "distinct xs \<Longrightarrow> x \<in> set xs \<Longrightarrow> \<forall>y \<in> set xs. P y \<longleftrightarrow> y = x \<Longrightarrow> filter P xs = [x]"
proof (induction xs)
  case Nil
  then show ?case by simp
next
  case (Cons a xs)
  show ?case
  proof (cases "a = x")
    case True
    with Cons.prems have "\<forall>y \<in> set xs. \<not> P y" by auto
    then have "filter P xs = []" by simp
    with True Cons.prems show ?thesis by simp
  next
    case False
    with Cons.prems Cons.IH show ?thesis by auto
  qed
qed

lemma reserved_current_at_prunes_take:
  "reserved_current_at_prunes p0 cur es \<Longrightarrow> reserved_current_at_prunes p0 cur (take n es)"
proof (induction es arbitrary: n cur)
  case Nil
  then show ?case by simp
next
  case (Cons e es)
  show ?case
  proof (cases n)
    case 0
    then show ?thesis by simp
  next
    case (Suc m)
    with Cons show ?thesis by (cases e) auto
  qed
qed

lemma reserved_kept_iff:
  "reserved_kept p0 h L \<longleftrightarrow>
     sorted (map fst (m_netCodes L)) \<and>
     distinct (map fst (m_netCodes L)) \<and>
     distinct (map fst (m_netNames L)) \<and>
     (\<forall>e \<in> set (m_netNames L). m_netname (h (snd e)) = fst e) \<and>
     distinct (map snd (m_netCodes L)) \<and>
     snd ` set (m_netCodes L) \<subseteq> snd ` set (m_netNames L) \<and>
     (0, p0) \<in> set (m_netCodes L) \<and>
     m_netname (h p0) = '''' \<and> m_netCode (h p0) = 0 \<and>
     (\<forall>e \<in> set (m_netNames L). snd e = p0 \<or> m_netCode (h (snd e)) \<noteq> 0)"
  by (auto simp: reserved_kept_def list_all_iff)

lemma NETCODES_insert_present:
  "sorted (map fst m) \<Longrightarrow> fst kv \<in> fst ` set m \<Longrightarrow> NETCODES_insert kv m = m"
proof (induction m)
  case Nil
  then show ?case by simp
next
  case (Cons e es)
  show ?case
  proof (cases "fst kv = fst e")
    case True
    then show ?thesis by simp
  next
    case False
    with Cons.prems(2) have in_es: "fst kv \<in> fst ` set es" by auto
    with Cons.prems(1) have "fst e \<le> fst kv" by auto
    with False have "\<not> fst kv < fst e" by simp
    moreover from Cons.prems(1) have "sorted (map fst es)" by simp
    ultimately show ?thesis using False Cons.IH in_es by simp
  qed
qed

lemma kept_name_entry:
  assumes "reserved_kept p0 h L" "p \<in> snd ` set (m_netNames L)"
  shows "(m_netname (h p), p) \<in> set (m_netNames L)"
proof -
  from assms(2) obtain e where e: "e \<in> set (m_netNames L)" "snd e = p" by auto
  with assms(1) have "fst e = m_netname (h p)" by (auto simp: reserved_kept_iff)
  with e show ?thesis by (metis prod.collapse)
qed

lemma kept_lookup_name:
  assumes "reserved_kept p0 h L" "p \<in> snd ` set (m_netNames L)"
  shows "GetNetItem_name L (m_netname (h p)) = Some p"
  unfolding GetNetItem_name_def
  using kept_name_entry [OF assms] assms(1)
  by (intro map_find_unique) (simp_all add: reserved_kept_iff)

lemma kept_names_inj:
  assumes "reserved_kept p0 h L"
  shows "inj_on (\<lambda>p. m_netname (h p)) (snd ` set (m_netNames L))"
proof (rule inj_onI)
  fix p q
  assume p: "p \<in> snd ` set (m_netNames L)" and q: "q \<in> snd ` set (m_netNames L)"
    and eq: "m_netname (h p) = m_netname (h q)"
  from kept_lookup_name [OF assms p] kept_lookup_name [OF assms q] eq
  show "p = q" by (metis option.inject)
qed

lemma kept_distinct_snd_names:
  assumes "reserved_kept p0 h L"
  shows "distinct (map snd (m_netNames L))"
proof -
  have "map fst (m_netNames L) = map (\<lambda>p. m_netname (h p)) (map snd (m_netNames L))"
    using assms by (auto simp: reserved_kept_iff)
  moreover have "distinct (map fst (m_netNames L))"
    using assms by (simp add: reserved_kept_iff)
  ultimately show ?thesis by (metis distinct_map)
qed

lemma kept_reserved_in_names:
  assumes "reserved_kept p0 h L"
  shows "p0 \<in> snd ` set (m_netNames L)"
proof -
  from assms have "(0, p0) \<in> set (m_netCodes L)" by (simp add: reserved_kept_iff)
  then have "p0 \<in> snd ` set (m_netCodes L)" by force
  with assms show ?thesis by (auto simp: reserved_kept_iff)
qed

lemma AppendNet_ndebug_fresh:
  assumes "GetNetItem_name L (m_netname (h p)) = None"
  shows "AppendNet_ndebug p (h, L) =
     (h(p := (h p)\<lparr>m_netCode := chosen_code h L p\<rparr>),
      L\<lparr>m_netNames := NETNAMES_insert (m_netname (h p), p) (m_netNames L),
        m_netCodes := NETCODES_insert (chosen_code h L p, p) (m_netCodes L),
        m_newNetCode :=
          (if m_netCode (h p) \<noteq> int (length (m_netCodes L)) \<or> m_netCode (h p) < 0
           then chosen_code h L p else m_newNetCode L),
        m_DisplayNetnamesDirty := True\<rparr>)"
proof (cases "m_netCode (h p) \<noteq> int (length (m_netCodes L)) \<or> m_netCode (h p) < 0")
  case True
  then show ?thesis
    using assms by (simp add: chosen_code_def getFreeNetCode_def Let_def)
next
  case False
  then have c: "chosen_code h L p = m_netCode (h p)" by (simp add: chosen_code_def)
  have "AppendNet_ndebug p (h, L) =
     (h,
      L\<lparr>m_netNames := NETNAMES_insert (m_netname (h p), p) (m_netNames L),
        m_netCodes := NETCODES_insert (m_netCode (h p), p) (m_netCodes L),
        m_DisplayNetnamesDirty := True\<rparr>)"
    using False assms by simp
  moreover have "L\<lparr>m_netNames := NETNAMES_insert (m_netname (h p), p) (m_netNames L),
               m_netCodes := NETCODES_insert (m_netCode (h p), p) (m_netCodes L),
               m_newNetCode := m_newNetCode L,
               m_DisplayNetnamesDirty := True\<rparr>
        = L\<lparr>m_netNames := NETNAMES_insert (m_netname (h p), p) (m_netNames L),
               m_netCodes := NETCODES_insert (m_netCode (h p), p) (m_netCodes L),
               m_DisplayNetnamesDirty := True\<rparr>"
    by simp
  moreover have "(if m_netCode (h p) \<noteq> int (length (m_netCodes L)) \<or> m_netCode (h p) < 0
                  then chosen_code h L p else m_newNetCode L) = m_newNetCode L"
    using False by simp
  ultimately show ?thesis
    by (simp only: c store_upd_code_same)
qed

lemma AppendNet_ndebug_agrees:
  assumes "AppendNet p (h, L) = Inr t"
  shows "AppendNet_ndebug p (h, L) = t"
proof (cases "GetNetItem_name L (m_netname (h p))")
  case (Some s)
  with assms show ?thesis by auto
next
  case None
  from assms AppendNet_fresh [of L h p, OF None] AppendNet_ndebug_fresh [of L h p, OF None]
  show ?thesis by (auto split: if_splits)
qed

lemma RemoveNet_ndebug_agrees:
  assumes "RemoveNet p h L = Inr L'"
  shows "RemoveNet_ndebug p h L = L'"
  using assms
  by (auto simp: RemoveNet_def RemoveNet_ndebug_def split: option.splits if_splits)

lemma step_ndebug_agrees:
  assumes "step e (h, L) = Inr t"
  shows "step_ndebug e (h, L) = t"
proof (cases e)
  case (Append p)
  from assms have "AppendNet p (h, L) = Inr t" unfolding Append by (simp only: step.simps)
  then have "AppendNet_ndebug p (h, L) = t" by (rule AppendNet_ndebug_agrees)
  then show ?thesis unfolding Append by (simp only: step_ndebug.simps)
next
  case (Remove p)
  with assms show ?thesis by (auto split: sum.splits simp: RemoveNet_ndebug_agrees)
next
  case (Prune aCommit)
  with assms show ?thesis by auto
next
  case (SetIsCurrent p b)
  with assms show ?thesis by auto
qed

lemma run_ndebug_agrees:
  "run es s = Inr t \<Longrightarrow> run_ndebug es s = t"
proof (induction es arbitrary: s)
  case Nil
  then show ?case by simp
next
  case (Cons e es)
  obtain h L where s: "s = (h, L)" by (cases s)
  from Cons.prems obtain s1 where s1: "step e s = Inr s1" and r: "run es s1 = Inr t"
    by (auto split: sum.splits)
  from s1 have "step_ndebug e s = s1" unfolding s by (rule step_ndebug_agrees)
  with Cons.IH [OF r] show ?case by simp
qed

lemma run_new_ndebug_agrees:
  assumes "run_new p0 h es = Inr t"
  shows "run_new_ndebug p0 h es = t"
proof -
  let ?s = "(h(p0 := NETINFO_ITEM_new '''' 0),
           \<lparr>m_netNames = [], m_netCodes = [], m_newNetCode = 0,
            m_DisplayNetnamesDirty = False\<rparr>)"
  from assms obtain s0 where c: "AppendNet p0 ?s = Inr s0" and r: "run es s0 = Inr t"
    by (auto simp: run_new_def NETINFO_LIST_ctor_def split: sum.splits)
  from c have "AppendNet_ndebug p0 ?s = s0" by (rule AppendNet_ndebug_agrees)
  with run_ndebug_agrees [OF r] show ?thesis by (simp add: run_new_ndebug_def)
qed

lemma chosen_code_positive:
  assumes "m_netCodes L \<noteq> []"
  shows "0 < chosen_code h L p"
proof (cases "m_netCode (h p) \<noteq> int (length (m_netCodes L)) \<or> m_netCode (h p) < 0")
  case True
  have "max (m_newNetCode L) 0 < getFreeNetCode_loop (m_netCodes L) (m_newNetCode L)"
    by (rule getFreeNetCode_loop_above)
  with True show ?thesis by (simp add: chosen_code_def)
next
  case False
  from assms have "0 < length (m_netCodes L)" by simp
  with False show ?thesis by (simp add: chosen_code_def)
qed

lemma AppendNet_ndebug_kept:
  assumes k: "reserved_kept p0 h L" and a: "AppendNet_ndebug p (h, L) = (h', L')"
  shows "reserved_kept p0 h' L' \<and> m_isCurrent (h' p0) = m_isCurrent (h p0)"
proof (cases "GetNetItem_name L (m_netname (h p))")
  case (Some s)
  with a have eq: "h' = h(p := (h p)\<lparr>m_netCode := m_netCode (h s)\<rparr>)" "L' = L" by simp_all
  have st: "\<And>q. q \<in> snd ` set (m_netNames L) \<Longrightarrow> h' q = h q"
  proof -
    fix q assume q: "q \<in> snd ` set (m_netNames L)"
    show "h' q = h q"
    proof (cases "q = p")
      case False
      then show ?thesis by (simp add: eq)
    next
      case True
      with q kept_lookup_name [OF k, of p] Some have "s = p" by simp
      then show ?thesis using True by (simp add: eq store_upd_code_same)
    qed
  qed
  have e: "\<And>e. e \<in> set (m_netNames L) \<Longrightarrow> h' (snd e) = h (snd e)"
    using st by blast
  have "h' p0 = h p0" using st kept_reserved_in_names [OF k] by blast
  with k e show ?thesis unfolding eq(2) by (simp add: reserved_kept_iff)
next
  case None
  let ?c = "chosen_code h L p"
  let ?n = "m_netname (h p)"
  from a AppendNet_ndebug_fresh [of L h p, OF None]
  have h': "h' = h(p := (h p)\<lparr>m_netCode := ?c\<rparr>)"
    and names': "m_netNames L' = NETNAMES_insert (?n, p) (m_netNames L)"
    and codes': "m_netCodes L' = NETCODES_insert (?c, p) (m_netCodes L)"
    by auto
  from None have kn: "?n \<notin> fst ` set (m_netNames L)"
    by (simp add: GetNetItem_name_def map_find_None_iff)
  have pm: "p \<notin> snd ` set (m_netNames L)"
  proof
    assume "p \<in> snd ` set (m_netNames L)"
    from kept_lookup_name [OF k this] None show False by simp
  qed
  with k have pn: "p \<notin> snd ` set (m_netCodes L)" by (auto simp: reserved_kept_iff)
  from pm kept_reserved_in_names [OF k] have pp0: "p \<noteq> p0" by auto
  from k have nonempty: "m_netCodes L \<noteq> []" by (auto simp: reserved_kept_iff)
  have pos: "?c \<noteq> 0" using chosen_code_positive [OF nonempty, of h p] by simp
  have n2: "m_netNames L' = m_netNames L @ [(?n, p)]"
    unfolding names' using kn by (intro NETNAMES_insert_fresh) simp
  from k have srt: "sorted (map fst (m_netCodes L))" and dk: "distinct (map fst (m_netCodes L))"
    and dv: "distinct (map snd (m_netCodes L))"
    by (simp_all add: reserved_kept_iff)
  have codes_cases: "(sorted (map fst (m_netCodes L')) \<and> distinct (map fst (m_netCodes L'))
      \<and> distinct (map snd (m_netCodes L'))
      \<and> set (m_netCodes L) \<subseteq> set (m_netCodes L')
      \<and> snd ` set (m_netCodes L') \<subseteq> insert p (snd ` set (m_netCodes L)))"
  proof (cases "?c \<in> fst ` set (m_netCodes L)")
    case True
    have "m_netCodes L' = m_netCodes L"
      unfolding codes' using srt True by (intro NETCODES_insert_present) simp_all
    with srt dk dv show ?thesis by auto
  next
    case False
    have s2: "set (m_netCodes L') = insert (?c, p) (set (m_netCodes L))"
      unfolding codes' using False by (intro set_NETCODES_insert) simp
    have "sorted (map fst (m_netCodes L'))"
      unfolding codes' using srt False by (intro sorted_NETCODES_insert) simp_all
    moreover have "distinct (map fst (m_netCodes L'))"
      unfolding codes' using dk False by (intro distinct_fst_NETCODES_insert) simp_all
    moreover have "distinct (map snd (m_netCodes L'))"
      unfolding codes' using dv False pn by (intro distinct_snd_NETCODES_insert) simp_all
    ultimately show ?thesis using s2 by auto
  qed
  have "distinct (map fst (m_netNames L'))"
    unfolding n2 using k kn by (simp add: reserved_kept_iff)
  moreover have "\<forall>e \<in> set (m_netNames L'). m_netname (h' (snd e)) = fst e"
    unfolding n2 h' using k pm by (auto simp: reserved_kept_iff)
  moreover have "snd ` set (m_netCodes L') \<subseteq> snd ` set (m_netNames L')"
  proof -
    from codes_cases have "snd ` set (m_netCodes L') \<subseteq> insert p (snd ` set (m_netCodes L))"
      by blast
    also from k have "\<dots> \<subseteq> insert p (snd ` set (m_netNames L))"
      by (auto simp: reserved_kept_iff)
    also have "\<dots> = snd ` set (m_netNames L')" unfolding n2 by simp
    finally show ?thesis .
  qed
  moreover have "(0, p0) \<in> set (m_netCodes L')"
    using codes_cases k by (auto simp: reserved_kept_iff)
  moreover have "h' p0 = h p0" using pp0 by (simp add: h')
  moreover have "\<forall>e \<in> set (m_netNames L'). snd e = p0 \<or> m_netCode (h' (snd e)) \<noteq> 0"
    unfolding n2 h' using k pm pos by (auto simp: reserved_kept_iff)
  ultimately show ?thesis using codes_cases k by (simp add: reserved_kept_iff)
qed

lemma erase_first_or_same:
  assumes "distinct (map snd m)"
  shows "(case erase_first a m of None \<Rightarrow> m | Some m' \<Rightarrow> m') = filter (\<lambda>e. snd e \<noteq> a) m"
proof (cases "a \<in> snd ` set m")
  case True
  from erase_first_filter [OF assms True] show ?thesis by simp
next
  case False
  then have "erase_first a m = None" by (simp add: erase_first_None_iff)
  moreover from False have "\<forall>e \<in> set m. snd e \<noteq> a" by auto
  then have "filter (\<lambda>e. snd e \<noteq> a) m = m" by simp
  ultimately show ?thesis by simp
qed

lemma RemoveNet_ndebug_indices:
  assumes k: "reserved_kept p0 h L"
  shows "m_netCodes (RemoveNet_ndebug p h L) = filter (\<lambda>e. snd e \<noteq> p) (m_netCodes L)"
    and "m_netNames (RemoveNet_ndebug p h L) = filter (\<lambda>e. snd e \<noteq> p) (m_netNames L)"
proof -
  from k have dv: "distinct (map snd (m_netCodes L))" by (simp add: reserved_kept_iff)
  have dn: "distinct (map snd (m_netNames L))" using k by (rule kept_distinct_snd_names)
  have c: "m_netCodes (RemoveNet_ndebug p h L)
             = (case erase_first p (m_netCodes L) of None \<Rightarrow> m_netCodes L | Some m' \<Rightarrow> m')"
    by (simp add: RemoveNet_ndebug_def split: option.splits)
  have n: "m_netNames (RemoveNet_ndebug p h L)
             = (case erase_first p (m_netNames L) of None \<Rightarrow> m_netNames L | Some m' \<Rightarrow> m')"
    by (simp add: RemoveNet_ndebug_def split: option.splits)
  show "m_netCodes (RemoveNet_ndebug p h L) = filter (\<lambda>e. snd e \<noteq> p) (m_netCodes L)"
    unfolding c using dv by (rule erase_first_or_same)
  show "m_netNames (RemoveNet_ndebug p h L) = filter (\<lambda>e. snd e \<noteq> p) (m_netNames L)"
    unfolding n using dn by (rule erase_first_or_same)
qed

lemma RemoveNet_ndebug_kept:
  assumes k: "reserved_kept p0 h L" and ne: "p \<noteq> p0"
  shows "reserved_kept p0 h (RemoveNet_ndebug p h L)"
proof -
  let ?L' = "RemoveNet_ndebug p h L"
  note i = RemoveNet_ndebug_indices [OF k, of p]
  have "snd ` set (filter (\<lambda>e. snd e \<noteq> p) (m_netCodes L))
          \<subseteq> snd ` set (filter (\<lambda>e. snd e \<noteq> p) (m_netNames L))"
    using k by (force simp: reserved_kept_iff)
  moreover have "(0, p0) \<in> set (filter (\<lambda>e. snd e \<noteq> p) (m_netCodes L))"
    using k ne by (simp add: reserved_kept_iff)
  ultimately show ?thesis
    using k unfolding reserved_kept_iff [of p0 h ?L'] i
    by (simp add: reserved_kept_iff sorted_filter distinct_map_filter)
qed

lemma RemoveUnusedNets_indices:
  assumes k: "reserved_kept p0 h L"
  shows "m_netCodes (fst (RemoveUnusedNets h aCommit L))
           = filter (\<lambda>e. m_isCurrent (h (snd e))) (m_netCodes L)"
    and "m_netNames (fst (RemoveUnusedNets h aCommit L))
           = map (\<lambda>e. (m_netname (h (snd e)), snd e))
               (filter (\<lambda>e. m_isCurrent (h (snd e))) (m_netCodes L))"
proof -
  let ?L0 = "L\<lparr>m_netCodes := [], m_netNames := []\<rparr>"
  from k have srt: "sorted (map fst (m_netCodes L))" and dk: "distinct (map fst (m_netCodes L))"
    and dv: "distinct (map snd (m_netCodes L))"
    and sub: "snd ` set (m_netCodes L) \<subseteq> snd ` set (m_netNames L)"
    by (simp_all add: reserved_kept_iff)
  have "inj_on (\<lambda>p. m_netname (h p)) (snd ` set (m_netCodes L))"
    using kept_names_inj [OF k] sub by (rule inj_on_subset)
  moreover from dv have d: "distinct (m_netCodes L)" "inj_on snd (set (m_netCodes L))"
    by (simp_all add: distinct_map)
  ultimately have "inj_on ((\<lambda>p. m_netname (h p)) \<circ> snd) (set (m_netCodes L))"
    by (intro comp_inj_on)
  with d(1) have dn: "distinct (map (\<lambda>e. m_netname (h (snd e))) (m_netCodes L))"
    by (simp add: distinct_map comp_def)
  have eq: "RemoveUnusedNets_loop h (m_netCodes L) (?L0, aCommit) =
     (?L0\<lparr>m_netNames := m_netNames ?L0
            @ map (\<lambda>e. (m_netname (h (snd e)), snd e))
                (filter (\<lambda>e. m_isCurrent (h (snd e))) (m_netCodes L)),
        m_netCodes := m_netCodes ?L0 @ filter (\<lambda>e. m_isCurrent (h (snd e))) (m_netCodes L),
        m_DisplayNetnamesDirty :=
          (m_DisplayNetnamesDirty ?L0 \<or> \<not> list_all (\<lambda>e. m_isCurrent (h (snd e))) (m_netCodes L))\<rparr>,
      map_option (\<lambda>removed. removed
          @ map snd (filter (\<lambda>e. \<not> m_isCurrent (h (snd e))) (m_netCodes L))) aCommit)"
    using srt dk dn by (intro RemoveUnusedNets_loop_eq) simp_all
  show "m_netCodes (fst (RemoveUnusedNets h aCommit L))
           = filter (\<lambda>e. m_isCurrent (h (snd e))) (m_netCodes L)"
    by (simp add: RemoveUnusedNets_def eq)
  show "m_netNames (fst (RemoveUnusedNets h aCommit L))
           = map (\<lambda>e. (m_netname (h (snd e)), snd e))
               (filter (\<lambda>e. m_isCurrent (h (snd e))) (m_netCodes L))"
    by (simp add: RemoveUnusedNets_def eq)
qed

lemma RemoveUnusedNets_kept:
  assumes k: "reserved_kept p0 h L" and cur: "m_isCurrent (h p0)"
  shows "reserved_kept p0 h (fst (RemoveUnusedNets h aCommit L))"
proof -
  let ?L' = "fst (RemoveUnusedNets h aCommit L)"
  let ?keep = "filter (\<lambda>e. m_isCurrent (h (snd e))) (m_netCodes L)"
  note i = RemoveUnusedNets_indices [OF k, of aCommit]
  from k have dv: "distinct (map snd (m_netCodes L))"
    and sub: "snd ` set (m_netCodes L) \<subseteq> snd ` set (m_netNames L)"
    by (simp_all add: reserved_kept_iff)
  have "inj_on (\<lambda>p. m_netname (h p)) (snd ` set (m_netCodes L))"
    using kept_names_inj [OF k] sub by (rule inj_on_subset)
  moreover from dv have d: "distinct (m_netCodes L)" "inj_on snd (set (m_netCodes L))"
    by (simp_all add: distinct_map)
  ultimately have "inj_on ((\<lambda>p. m_netname (h p)) \<circ> snd) (set (m_netCodes L))"
    by (intro comp_inj_on)
  with d(1) have "distinct (map (\<lambda>e. m_netname (h (snd e))) (m_netCodes L))"
    by (simp add: distinct_map comp_def)
  then have "distinct (map (\<lambda>e. m_netname (h (snd e))) ?keep)" by (rule distinct_map_filter)
  then have 3: "distinct (map fst (m_netNames ?L'))" unfolding i by (simp add: comp_def)
  have 4: "\<forall>e \<in> set (m_netNames ?L'). m_netname (h (snd e)) = fst e" unfolding i by auto
  have 6: "snd ` set (m_netCodes ?L') \<subseteq> snd ` set (m_netNames ?L')" unfolding i by force
  have 7: "(0, p0) \<in> set (m_netCodes ?L')" unfolding i using k cur by (simp add: reserved_kept_iff)
  have 10: "\<forall>e \<in> set (m_netNames ?L'). snd e = p0 \<or> m_netCode (h (snd e)) \<noteq> 0"
  proof
    fix e assume "e \<in> set (m_netNames ?L')"
    then have "snd e \<in> snd ` set (m_netCodes L)" unfolding i by force
    with sub have "snd e \<in> snd ` set (m_netNames L)" by blast
    then obtain e' where "e' \<in> set (m_netNames L)" "snd e' = snd e" by auto
    with k show "snd e = p0 \<or> m_netCode (h (snd e)) \<noteq> 0"
      by (auto simp: reserved_kept_iff)
  qed
  have 1: "sorted (map fst (m_netCodes ?L'))" "distinct (map fst (m_netCodes ?L'))"
    "distinct (map snd (m_netCodes ?L'))"
    unfolding i using k by (simp_all add: reserved_kept_iff sorted_filter distinct_map_filter)
  from k have "m_netname (h p0) = ''''" "m_netCode (h p0) = 0" by (simp_all add: reserved_kept_iff)
  with 1 3 4 6 7 10 show ?thesis unfolding reserved_kept_iff [of p0 h ?L'] by blast
qed

lemma step_ndebug_kept:
  assumes k: "reserved_kept p0 h L"
    and st: "step_ndebug e (h, L) = (h', L')"
    and ne: "e \<noteq> Remove p0"
    and cur: "reserved_current_at_prunes p0 (m_isCurrent (h p0)) (e # es)"
  shows "reserved_kept p0 h' L' \<and> reserved_current_at_prunes p0 (m_isCurrent (h' p0)) es"
proof (cases e)
  case (Append p)
  from st have a: "AppendNet_ndebug p (h, L) = (h', L')"
    unfolding Append by (simp only: step_ndebug.simps)
  from AppendNet_ndebug_kept [OF k a] cur Append show ?thesis by simp
next
  case (Remove p)
  with ne have pne: "p \<noteq> p0" by simp
  from st Remove have L': "L' = RemoveNet_ndebug p h L" and hh: "h' = h" by auto
  from RemoveNet_ndebug_kept [OF k pne] cur Remove show ?thesis by (simp add: L' hh)
next
  case (Prune aCommit)
  with st have L': "L' = fst (RemoveUnusedNets h aCommit L)" and hh: "h' = h" by auto
  from cur Prune have cc: "m_isCurrent (h p0)"
    and rest: "reserved_current_at_prunes p0 (m_isCurrent (h p0)) es" by auto
  from RemoveUnusedNets_kept [OF k cc] rest show ?thesis by (simp add: L' hh)
next
  case (SetIsCurrent p b)
  with st have h': "h' = h(p := (h p)\<lparr>m_isCurrent := b\<rparr>)" and LL: "L' = L" by auto
  have "reserved_kept p0 h' L = reserved_kept p0 h L"
    by (auto simp: reserved_kept_iff h')
  moreover have "m_isCurrent (h' p0) = (if p = p0 then b else m_isCurrent (h p0))"
    by (simp add: h')
  ultimately show ?thesis using k cur SetIsCurrent by (simp add: LL)
qed

lemma run_ndebug_kept:
  assumes "reserved_kept p0 h L" and "run_ndebug es (h, L) = (h', L')"
    and "Remove p0 \<notin> set es" and "reserved_current_at_prunes p0 (m_isCurrent (h p0)) es"
  shows "reserved_kept p0 h' L'"
  using assms
proof (induction es arbitrary: h L)
  case Nil
  then show ?case by simp
next
  case (Cons e es)
  obtain h1 L1 where s1: "step_ndebug e (h, L) = (h1, L1)" by (cases "step_ndebug e (h, L)")
  with Cons.prems(2) have r1: "run_ndebug es (h1, L1) = (h', L')" by simp
  from Cons.prems(3) have ne: "e \<noteq> Remove p0" and rest: "Remove p0 \<notin> set es" by auto
  from step_ndebug_kept [OF Cons.prems(1) s1 ne Cons.prems(4)]
  have "reserved_kept p0 h1 L1" "reserved_current_at_prunes p0 (m_isCurrent (h1 p0)) es"
    by simp_all
  then show ?case using r1 rest by (intro Cons.IH)
qed

lemma reserved_kept_reserved_invariant:
  assumes k: "reserved_kept p0 h L"
  shows "reserved_invariant h L"
proof -
  let ?recs = "registry_records L"
  from k have sub: "snd ` set (m_netCodes L) \<subseteq> snd ` set (m_netNames L)"
    and code0: "m_netCode (h p0) = 0" and nm: "m_netname (h p0) = ''''"
    and others: "\<forall>e \<in> set (m_netNames L). snd e = p0 \<or> m_netCode (h (snd e)) \<noteq> 0"
    by (simp_all add: reserved_kept_iff)
  have recs: "set ?recs = snd ` set (m_netNames L)"
    using sub by (auto simp: set_registry_records)
  have d: "distinct ?recs" by (simp add: registry_records_def)
  have p0: "p0 \<in> set ?recs" unfolding recs using k by (rule kept_reserved_in_names)
  have only: "\<forall>q \<in> set ?recs. m_netCode (h q) = 0 \<longleftrightarrow> q = p0"
  proof
    fix q assume "q \<in> set ?recs"
    then obtain e where "e \<in> set (m_netNames L)" "snd e = q" unfolding recs by auto
    with others have "q = p0 \<or> m_netCode (h q) \<noteq> 0" by auto
    with code0 show "m_netCode (h q) = 0 \<longleftrightarrow> q = p0" by auto
  qed
  then have only2: "\<forall>q \<in> set ?recs. (m_netCode (h q) = 0 \<and> m_netname (h q) = '''') \<longleftrightarrow> q = p0"
    using nm by auto
  have f1: "filter (\<lambda>p. m_netCode (h p) = 0) ?recs = [p0]"
    using d p0 only by (rule filter_eq_singleton)
  have f2: "filter (\<lambda>p. m_netCode (h p) = 0 \<and> m_netname (h p) = '''') ?recs = [p0]"
    using d p0 only2 by (rule filter_eq_singleton)
  have ni: "inj_on (\<lambda>p. m_netname (h p)) (set ?recs)"
    unfolding recs using k by (rule kept_names_inj)
  have "inj_on (\<lambda>p. (m_netCode (h p), m_netname (h p))) (set ?recs)"
  proof (rule inj_onI)
    fix p q assume "p \<in> set ?recs" "q \<in> set ?recs"
      and "(m_netCode (h p), m_netname (h p)) = (m_netCode (h q), m_netname (h q))"
    then have "m_netname (h p) = m_netname (h q)" by simp
    with ni \<open>p \<in> set ?recs\<close> \<open>q \<in> set ?recs\<close> show "p = q" by (auto dest: inj_onD)
  qed
  with d have "distinct (map (\<lambda>p. (m_netCode (h p), m_netname (h p))) ?recs)"
    by (simp add: distinct_map)
  with f1 f2 show ?thesis by (simp add: reserved_invariant_def)
qed

lemma ctor_ndebug_kept:
  "AppendNet_ndebug p0
     (h(p0 := NETINFO_ITEM_new '''' 0),
      \<lparr>m_netNames = [], m_netCodes = [], m_newNetCode = 0, m_DisplayNetnamesDirty = False\<rparr>)
   = (h(p0 := NETINFO_ITEM_new '''' 0),
      \<lparr>m_netNames = [('''', p0)], m_netCodes = [(0, p0)], m_newNetCode = 0,
       m_DisplayNetnamesDirty = True\<rparr>)"
  "reserved_kept p0 (h(p0 := NETINFO_ITEM_new '''' 0))
     \<lparr>m_netNames = [('''', p0)], m_netCodes = [(0, p0)], m_newNetCode = 0,
      m_DisplayNetnamesDirty = True\<rparr>"
  by (simp_all add: reserved_kept_def NETINFO_ITEM_new_def GetNetItem_name_def map_find_def)

text \<open>
  Claim C7 says that exactly one record has code 0 after any sequence of registry
  operations that does not remove the reserved record with \<open>RemoveNet\<close>.
  \<open>RemoveUnusedNets\<close> keeps a record only when it is current, and it treats the reserved
  record like any other: when the reserved record of a new registry has been marked as not
  current, pruning leaves a registry without a record of code 0, with the assertions and
  without them.
\<close>

theorem reserved_record_pruned_counterexample:
  "run_new 0 no_items [SetIsCurrent 0 False, Prune None]
     = Inr (no_items(0 := \<lparr>m_netCode = 0, m_netname = '''', m_isCurrent = False\<rparr>),
            \<lparr>m_netNames = [], m_netCodes = [], m_newNetCode = 0, m_DisplayNetnamesDirty = True\<rparr>)
   \<and> run_new_ndebug 0 no_items [SetIsCurrent 0 False, Prune None]
     = (no_items(0 := \<lparr>m_netCode = 0, m_netname = '''', m_isCurrent = False\<rparr>),
        \<lparr>m_netNames = [], m_netCodes = [], m_newNetCode = 0, m_DisplayNetnamesDirty = True\<rparr>)
   \<and> \<not> reserved_invariant
         (no_items(0 := \<lparr>m_netCode = 0, m_netname = '''', m_isCurrent = False\<rparr>))
         \<lparr>m_netNames = [], m_netCodes = [], m_newNetCode = 0, m_DisplayNetnamesDirty = True\<rparr>"
  by (simp add: run_new_def run_new_ndebug_def NETINFO_LIST_ctor_eq NETINFO_ITEM_new_def
      GetNetItem_name_def map_find_def
      RemoveUnusedNets_def reserved_invariant_def registry_records_def)

text \<open>
  Claim C7, amended: start from a new registry and run any sequence of \<open>AppendNet\<close>,
  \<open>RemoveNet\<close> of records other than the reserved one, \<open>RemoveUnusedNets\<close> and changes of
  the current flags, in which the reserved record is current whenever \<open>RemoveUnusedNets\<close>
  runs. After every operation of the sequence (after the first \<open>n\<close> of them, for every \<open>n\<close>)
  exactly one record of the registry has code 0, that record has the empty name, and the
  (code, name) pairs of the records are pairwise different. This holds in the build without
  assertions, where every operation returns, and therefore at every point that the build
  with assertions reaches.
\<close>

theorem reserved_invariant_maintained:
  assumes others: "Remove p0 \<notin> set evs"
    and current: "reserved_current_at_prunes p0 True evs"
  shows "reserved_invariant (fst (run_new_ndebug p0 h (take n evs)))
                         (snd (run_new_ndebug p0 h (take n evs)))
     \<and> (\<forall>h1 L1. run_new p0 h (take n evs) = Inr (h1, L1) \<longrightarrow> reserved_invariant h1 L1)"
proof -
  let ?h0 = "h(p0 := NETINFO_ITEM_new '''' 0)"
  let ?L0 = "\<lparr>m_netNames = [('''', p0)], m_netCodes = [(0, p0)], m_newNetCode = 0,
      m_DisplayNetnamesDirty = True\<rparr>"
  obtain h' L' where r: "run_ndebug (take n evs) (?h0, ?L0) = (h', L')"
    by (cases "run_ndebug (take n evs) (?h0, ?L0)")
  then have rn: "run_new_ndebug p0 h (take n evs) = (h', L')"
    by (simp only: run_new_ndebug_def ctor_ndebug_kept(1))
  have o: "Remove p0 \<notin> set (take n evs)" using others by (auto dest: in_set_takeD)
  have "m_isCurrent (?h0 p0) = True" by (simp add: NETINFO_ITEM_new_def)
  with current have "reserved_current_at_prunes p0 (m_isCurrent (?h0 p0)) evs" by simp
  then have cur: "reserved_current_at_prunes p0 (m_isCurrent (?h0 p0)) (take n evs)"
    by (rule reserved_current_at_prunes_take)
  have "reserved_kept p0 h' L'"
    using ctor_ndebug_kept(2) r o cur by (rule run_ndebug_kept)
  then have inv: "reserved_invariant h' L'" by (rule reserved_kept_reserved_invariant)
  have "\<forall>h1 L1. run_new p0 h (take n evs) = Inr (h1, L1) \<longrightarrow> reserved_invariant h1 L1"
  proof (intro allI impI)
    fix h1 L1 assume "run_new p0 h (take n evs) = Inr (h1, L1)"
    then have "run_new_ndebug p0 h (take n evs) = (h1, L1)" by (rule run_new_ndebug_agrees)
    with rn inv show "reserved_invariant h1 L1" by simp
  qed
  with inv rn show ?thesis by simp
qed

theorem reserved_invariant_maintained_witness:
  "Remove 0 \<notin> set [Append 1, Append 2, Remove 1, Append 3]
   \<and> reserved_current_at_prunes 0 True [Append 1, Append 2, Remove 1, Append 3]
   \<and> run_new 0
        (no_items
          (1 := \<lparr>m_netCode = - 1, m_netname = ''A'', m_isCurrent = True\<rparr>,
           2 := \<lparr>m_netCode = - 1, m_netname = ''B'', m_isCurrent = True\<rparr>,
           3 := \<lparr>m_netCode = 2, m_netname = ''C'', m_isCurrent = True\<rparr>))
        [Append 1, Append 2, Remove 1, Append 3] = Inl AssertCodeUnique
   \<and> snd (run_new_ndebug 0
        (no_items
          (1 := \<lparr>m_netCode = - 1, m_netname = ''A'', m_isCurrent = True\<rparr>,
           2 := \<lparr>m_netCode = - 1, m_netname = ''B'', m_isCurrent = True\<rparr>,
           3 := \<lparr>m_netCode = 2, m_netname = ''C'', m_isCurrent = True\<rparr>))
        [Append 1, Append 2, Remove 1, Append 3])
       = \<lparr>m_netNames = [('''', 0), (''B'', 2), (''C'', 3)], m_netCodes = [(0, 0), (2, 2)],
          m_newNetCode = 0, m_DisplayNetnamesDirty = True\<rparr>
   \<and> reserved_invariant
        (fst (run_new_ndebug 0
          (no_items
            (1 := \<lparr>m_netCode = - 1, m_netname = ''A'', m_isCurrent = True\<rparr>,
             2 := \<lparr>m_netCode = - 1, m_netname = ''B'', m_isCurrent = True\<rparr>,
             3 := \<lparr>m_netCode = 2, m_netname = ''C'', m_isCurrent = True\<rparr>))
          [Append 1, Append 2, Remove 1, Append 3]))
        (snd (run_new_ndebug 0
          (no_items
            (1 := \<lparr>m_netCode = - 1, m_netname = ''A'', m_isCurrent = True\<rparr>,
             2 := \<lparr>m_netCode = - 1, m_netname = ''B'', m_isCurrent = True\<rparr>,
             3 := \<lparr>m_netCode = 2, m_netname = ''C'', m_isCurrent = True\<rparr>))
          [Append 1, Append 2, Remove 1, Append 3]))
   \<and> (\<exists>h1 L1. run_new 0
          (no_items
            (1 := \<lparr>m_netCode = - 1, m_netname = ''A'', m_isCurrent = True\<rparr>,
             2 := \<lparr>m_netCode = - 1, m_netname = ''B'', m_isCurrent = True\<rparr>,
             3 := \<lparr>m_netCode = 2, m_netname = ''C'', m_isCurrent = True\<rparr>))
          [Append 1, Append 2, Remove 1] = Inr (h1, L1)
        \<and> m_netCodes L1 = [(0, 0), (2, 2)]
        \<and> reserved_invariant h1 L1)"
proof -
  let ?S = "no_items
          (1 := \<lparr>m_netCode = - 1, m_netname = ''A'', m_isCurrent = True\<rparr>,
           2 := \<lparr>m_netCode = - 1, m_netname = ''B'', m_isCurrent = True\<rparr>,
           3 := \<lparr>m_netCode = 2, m_netname = ''C'', m_isCurrent = True\<rparr>)"
  let ?evs = "[Append 1, Append 2, Remove 1, Append 3]"
  have a: "Remove 0 \<notin> set ?evs" by simp
  have b: "reserved_current_at_prunes 0 True ?evs" by simp
  have halt: "run_new 0 ?S ?evs = Inl AssertCodeUnique"
    by (simp add: run_new_def NETINFO_LIST_ctor_eq NETINFO_ITEM_new_def no_items_def
        GetNetItem_name_def GetNetItem_code_def map_find_def map_count_def
        getFreeNetCode_def getFreeNetCode_loop.simps RemoveNet_def)
  have cont: "snd (run_new_ndebug 0 ?S ?evs)
       = \<lparr>m_netNames = [('''', 0), (''B'', 2), (''C'', 3)], m_netCodes = [(0, 0), (2, 2)],
          m_newNetCode = 0, m_DisplayNetnamesDirty = True\<rparr>"
    by (simp add: run_new_ndebug_def NETINFO_ITEM_new_def no_items_def
        GetNetItem_name_def map_find_def map_count_def
        getFreeNetCode_def getFreeNetCode_loop.simps RemoveNet_ndebug_def)
  have t4: "take 4 ?evs = ?evs" and t3: "take 3 ?evs = [Append 1, Append 2, Remove 1]"
    by simp_all
  from reserved_invariant_maintained [OF a b, of ?S 4]
  have inv4: "reserved_invariant (fst (run_new_ndebug 0 ?S ?evs)) (snd (run_new_ndebug 0 ?S ?evs))"
    unfolding t4 by blast
  have "\<exists>h1 L1. run_new 0 ?S [Append 1, Append 2, Remove 1] = Inr (h1, L1)
          \<and> m_netCodes L1 = [(0, 0), (2, 2)]"
    by (simp add: run_new_def NETINFO_LIST_ctor_eq NETINFO_ITEM_new_def no_items_def
        GetNetItem_name_def GetNetItem_code_def map_find_def map_count_def
        getFreeNetCode_def getFreeNetCode_loop.simps RemoveNet_def)
  then obtain h1 L1 where r3: "run_new 0 ?S [Append 1, Append 2, Remove 1] = Inr (h1, L1)"
    and c3: "m_netCodes L1 = [(0, 0), (2, 2)]" by blast
  from reserved_invariant_maintained [OF a b, of ?S 3] r3
  have inv3: "reserved_invariant h1 L1" unfolding t3 by blast
  have ex: "\<exists>h1 L1. run_new 0 ?S [Append 1, Append 2, Remove 1] = Inr (h1, L1)
        \<and> m_netCodes L1 = [(0, 0), (2, 2)] \<and> reserved_invariant h1 L1"
    by (rule exI [of _ h1], rule exI [of _ L1]) (intro conjI r3 c3 inv3)
  from a b halt cont inv4 ex show ?thesis by (intro conjI)
qed

section \<open>Consecutive codes\<close>

lemma keys_consecutive:
  assumes "map fst codes = map int [0..<length codes]"
  shows "fst ` set codes = {k. 0 \<le> k \<and> k < int (length codes)}"
proof -
  have "fst ` set codes = set (map fst codes)" by simp
  also have "\<dots> = int ` {0..<length codes}" unfolding assms by simp
  also have "\<dots> = {k. 0 \<le> k \<and> k < int (length codes)}"
    by (auto simp: image_int_atLeastLessThan)
  finally show ?thesis .
qed

lemma getFreeNetCode_loop_consecutive:
  assumes keys: "map fst codes = map int [0..<length codes]"
    and n: "0 \<le> n" "n < int (length codes)"
  shows "getFreeNetCode_loop codes n = int (length codes)"
proof -
  have k: "\<And>k. map_count codes k \<noteq> 0 \<longleftrightarrow> 0 \<le> k \<and> k < int (length codes)"
    unfolding map_count_iff keys_consecutive [OF keys] by simp
  have "scan_from codes (n + 1) = int (length codes)"
  proof (rule scan_from_unique)
    show "n + 1 \<le> int (length codes)" using n by simp
    show "map_count codes (int (length codes)) = 0" using k [of "int (length codes)"] by simp
    fix j assume "n + 1 \<le> j" "j < int (length codes)"
    with n have "0 \<le> j \<and> j < int (length codes)" by linarith
    then show "map_count codes j \<noteq> 0" by (simp only: k)
  qed
  with n show ?thesis by (simp add: getFreeNetCode_loop_scan)
qed

lemma AppendNet_consecutive_fresh:
  assumes cc: "codes_consecutive h L"
    and fresh: "GetNetItem_name L (m_netname (h p)) = None"
  shows "\<exists>h' L'. AppendNet p (h, L) = Inr (h', L') \<and> codes_consecutive h' L'
           \<and> m_netCodes L' = m_netCodes L @ [(int (length (m_netCodes L)), p)]
           \<and> m_netNames L' = m_netNames L @ [(m_netname (h p), p)]"
proof -
  let ?n = "int (length (m_netCodes L))"
  from cc have c: "registry_consistent h L"
    and keys: "map fst (m_netCodes L) = map int [0..<length (m_netCodes L)]"
    and hint: "0 \<le> m_newNetCode L" "m_newNetCode L < ?n"
    by (simp_all add: codes_consecutive_def)
  have ch: "chosen_code h L p = ?n"
    using getFreeNetCode_loop_consecutive [OF keys hint] by (simp add: chosen_code_def)
  have kn: "?n \<notin> fst ` set (m_netCodes L)"
    by (simp add: keys_consecutive [OF keys])
  then have free: "map_find (m_netCodes L) ?n = None" by (simp add: map_find_None_iff)
  have below: "\<forall>e \<in> set (m_netCodes L). fst e < fst (?n, p)"
    using keys_consecutive [OF keys] by auto
  have i1: "NETCODES_insert (?n, p) (m_netCodes L) = m_netCodes L @ [(?n, p)]"
    using below by (rule NETCODES_insert_last)
  from fresh have "m_netname (h p) \<notin> fst ` set (m_netNames L)"
    by (simp add: GetNetItem_name_def map_find_None_iff)
  then have i2: "NETNAMES_insert (m_netname (h p), p) (m_netNames L)
                   = m_netNames L @ [(m_netname (h p), p)]"
    by (intro NETNAMES_insert_fresh) simp
  define h' where "h' = h(p := (h p)\<lparr>m_netCode := ?n\<rparr>)"
  define L' where "L' = L\<lparr>m_netNames := m_netNames L @ [(m_netname (h p), p)],
               m_netCodes := m_netCodes L @ [(?n, p)],
               m_newNetCode :=
                 (if m_netCode (h p) \<noteq> ?n \<or> m_netCode (h p) < 0
                  then ?n else m_newNetCode L),
               m_DisplayNetnamesDirty := True\<rparr>"
  have a: "AppendNet p (h, L) = Inr (h', L')"
    using AppendNet_fresh [of L h p, OF fresh] free
    by (simp add: ch i1 i2 h'_def L'_def)
  have c': "registry_consistent h' L'" using c a by (rule AppendNet_consistent)
  have "map fst (m_netCodes L') = map int [0..<length (m_netCodes L')]"
    using keys by (simp add: L'_def)
  moreover have "0 \<le> m_newNetCode L'" "m_newNetCode L' < int (length (m_netCodes L'))"
    using hint by (simp_all add: L'_def)
  ultimately have "codes_consecutive h' L'" using c' by (simp add: codes_consecutive_def)
  moreover have "m_netCodes L' = m_netCodes L @ [(?n, p)]"
    "m_netNames L' = m_netNames L @ [(m_netname (h p), p)]"
    by (simp_all add: L'_def)
  ultimately show ?thesis using a by blast
qed

lemma AppendNet_consecutive_absorbed:
  assumes cc: "codes_consecutive h L"
    and found: "GetNetItem_name L (m_netname (h p)) = Some s"
  shows "\<exists>h'. AppendNet p (h, L) = Inr (h', L) \<and> codes_consecutive h' L"
proof -
  let ?h' = "h(p := (h p)\<lparr>m_netCode := m_netCode (h s)\<rparr>)"
  have a: "AppendNet p (h, L) = Inr (?h', L)" using found by (rule AppendNet_same_name)
  from cc have "registry_consistent h L" by (simp add: codes_consecutive_def)
  then have "registry_consistent ?h' L" using a by (rule AppendNet_consistent)
  with cc have "codes_consecutive ?h' L" by (simp add: codes_consecutive_def)
  with a show ?thesis by blast
qed

lemma run_appends_consecutive:
  assumes "codes_consecutive h L" and "distinct (map (\<lambda>p. m_netname (h p)) ps)"
  shows "\<exists>h' L'. run (map Append ps) (h, L) = Inr (h', L') \<and> codes_consecutive h' L'
           \<and> map snd (m_netCodes L') = map snd (m_netCodes L)
                @ filter (\<lambda>p. m_netname (h p) \<notin> fst ` set (m_netNames L)) ps
           \<and> map snd (m_netNames L') = map snd (m_netNames L)
                @ filter (\<lambda>p. m_netname (h p) \<notin> fst ` set (m_netNames L)) ps"
  using assms
proof (induction ps arbitrary: h L)
  case Nil
  then show ?case by simp
next
  case (Cons p ps)
  let ?new = "\<lambda>h L p. m_netname (h p) \<notin> fst ` set (m_netNames L)"
  show ?case
  proof (cases "GetNetItem_name L (m_netname (h p))")
    case (Some s)
    from AppendNet_consecutive_absorbed [OF Cons.prems(1) Some]
    obtain h1 where a: "AppendNet p (h, L) = Inr (h1, L)" and cc1: "codes_consecutive h1 L"
      by blast
    have names: "\<And>q. m_netname (h1 q) = m_netname (h q)"
      by (rule AppendNet_store_frame(1) [OF a])
    have d1: "distinct (map (\<lambda>p. m_netname (h1 p)) ps)"
      using Cons.prems(2) by (simp add: names)
    from Cons.IH [OF cc1 d1] obtain h' L'
      where r: "run (map Append ps) (h1, L) = Inr (h', L')" and cc': "codes_consecutive h' L'"
        and vc: "map snd (m_netCodes L') = map snd (m_netCodes L) @ filter (?new h1 L) ps"
        and vn: "map snd (m_netNames L') = map snd (m_netNames L) @ filter (?new h1 L) ps"
      by blast
    from Some have old: "\<not> ?new h L p"
      by (simp add: GetNetItem_name_def map_find_None_iff [symmetric])
    have f: "filter (?new h1 L) ps = filter (?new h L) (p # ps)"
      using old by (simp add: names)
    from a r have "run (map Append (p # ps)) (h, L) = Inr (h', L')" by simp
    with cc' vc vn show ?thesis unfolding f by blast
  next
    case None
    from AppendNet_consecutive_fresh [OF Cons.prems(1) None]
    obtain h1 L1 where a: "AppendNet p (h, L) = Inr (h1, L1)"
      and cc1: "codes_consecutive h1 L1"
      and c1: "m_netCodes L1 = m_netCodes L @ [(int (length (m_netCodes L)), p)]"
      and n1: "m_netNames L1 = m_netNames L @ [(m_netname (h p), p)]"
      by blast
    have names: "\<And>q. m_netname (h1 q) = m_netname (h q)"
      by (rule AppendNet_store_frame(1) [OF a])
    have d1: "distinct (map (\<lambda>p. m_netname (h1 p)) ps)"
      using Cons.prems(2) by (simp add: names)
    from Cons.IH [OF cc1 d1] obtain h' L'
      where r: "run (map Append ps) (h1, L1) = Inr (h', L')" and cc': "codes_consecutive h' L'"
        and vc: "map snd (m_netCodes L') = map snd (m_netCodes L1) @ filter (?new h1 L1) ps"
        and vn: "map snd (m_netNames L') = map snd (m_netNames L1) @ filter (?new h1 L1) ps"
      by blast
    from None have new: "?new h L p"
      by (simp add: GetNetItem_name_def map_find_None_iff)
    have "\<forall>q \<in> set ps. m_netname (h q) \<noteq> m_netname (h p)"
    proof
      fix q assume q: "q \<in> set ps"
      from Cons.prems(2) have "m_netname (h p) \<notin> (\<lambda>p. m_netname (h p)) ` set ps" by simp
      with q show "m_netname (h q) \<noteq> m_netname (h p)" by (metis imageI)
    qed
    then have "filter (?new h1 L1) ps = filter (?new h L) ps"
      by (intro filter_cong) (auto simp: names n1)
    with new have f: "[p] @ filter (?new h1 L1) ps = filter (?new h L) (p # ps)" by simp
    have vc': "map snd (m_netCodes L') = map snd (m_netCodes L) @ filter (?new h L) (p # ps)"
      using vc f by (simp add: c1)
    have vn': "map snd (m_netNames L') = map snd (m_netNames L) @ filter (?new h L) (p # ps)"
      using vn f by (simp add: n1)
    from a r have "run (map Append (p # ps)) (h, L) = Inr (h', L')" by simp
    with cc' vc' vn' show ?thesis by blast
  qed
qed

text \<open>
  Claim C1. On a new registry, whose constructor has registered the reserved record at \<open>p0\<close>,
  appending records with pairwise distinct names (none of them the reserved record itself)
  returns normally. Afterwards the by-code index lists the reserved record followed by the
  appended records in append order; the keys are \<open>0, 1, \<dots>, n - 1\<close> in that order, every
  record holds the code it is filed under, and the by-name index lists the same records. The
  one record, if any, whose name is the reserved empty name is not listed: \<open>AppendNet\<close> merges
  it with the reserved record.
\<close>

theorem appends_get_consecutive_codes:
  assumes names: "distinct (map (\<lambda>p. m_netname (h p)) ps)" and other: "p0 \<notin> set ps"
  shows "\<exists>h' L'. run_new p0 h (map Append ps) = Inr (h', L')
           \<and> map snd (m_netCodes L') = p0 # filter (\<lambda>p. m_netname (h p) \<noteq> '''') ps
           \<and> map fst (m_netCodes L') = map int [0..<length (m_netCodes L')]
           \<and> map (\<lambda>p. m_netCode (h' p)) (map snd (m_netCodes L'))
               = map int [0..<length (m_netCodes L')]
           \<and> map snd (m_netNames L') = map snd (m_netCodes L')"
proof -
  define h0 where "h0 = h(p0 := NETINFO_ITEM_new '''' 0)"
  let ?L0 = "\<lparr>m_netNames = [('''', p0)], m_netCodes = [(0, p0)], m_newNetCode = 0,
      m_DisplayNetnamesDirty = True\<rparr>"
  have same: "\<And>p. p \<in> set ps \<Longrightarrow> h0 p = h p" using other by (auto simp: h0_def)
  have cc0: "codes_consecutive h0 ?L0"
    by (simp add: h0_def codes_consecutive_def registry_consistent_def NETINFO_ITEM_new_def)
  have "map (\<lambda>p. m_netname (h0 p)) ps = map (\<lambda>p. m_netname (h p)) ps"
    by (rule map_cong [OF refl]) (simp only: same)
  with names have d0: "distinct (map (\<lambda>p. m_netname (h0 p)) ps)" by (simp only:)
  from run_appends_consecutive [OF cc0 d0] obtain h' L'
    where r: "run (map Append ps) (h0, ?L0) = Inr (h', L')"
      and cc: "codes_consecutive h' L'"
      and vc: "map snd (m_netCodes L') = map snd (m_netCodes ?L0)
                 @ filter (\<lambda>p. m_netname (h0 p) \<notin> fst ` set (m_netNames ?L0)) ps"
      and vn: "map snd (m_netNames L') = map snd (m_netNames ?L0)
                 @ filter (\<lambda>p. m_netname (h0 p) \<notin> fst ` set (m_netNames ?L0)) ps"
    by (elim exE conjE) (rule that; assumption)
  have f: "filter (\<lambda>p. m_netname (h0 p) \<notin> fst ` set (m_netNames ?L0)) ps
             = filter (\<lambda>p. m_netname (h p) \<noteq> '''') ps"
    by (rule filter_cong [OF refl]) (simp add: same)
  have 1: "run_new p0 h (map Append ps) = Inr (h', L')"
    using r by (simp add: run_new_def NETINFO_LIST_ctor_eq h0_def)
  have 2: "map snd (m_netCodes L') = p0 # filter (\<lambda>p. m_netname (h p) \<noteq> '''') ps"
    using vc unfolding f by simp
  have 3: "map fst (m_netCodes L') = map int [0..<length (m_netCodes L')]"
    using cc by (simp add: codes_consecutive_def)
  from cc have "\<forall>e \<in> set (m_netCodes L'). m_netCode (h' (snd e)) = fst e"
    by (simp add: codes_consecutive_def registry_consistent_iff)
  then have "map (\<lambda>e. m_netCode (h' (snd e))) (m_netCodes L') = map fst (m_netCodes L')"
    by (intro map_cong [OF refl]) simp
  then have "map (\<lambda>p. m_netCode (h' p)) (map snd (m_netCodes L')) = map fst (m_netCodes L')"
    by (simp add: comp_def)
  with 3 have 4: "map (\<lambda>p. m_netCode (h' p)) (map snd (m_netCodes L'))
                    = map int [0..<length (m_netCodes L')]" by simp
  have 5: "map snd (m_netNames L') = map snd (m_netCodes L')"
    using vn vc by simp
  show ?thesis
    by (rule exI [of _ h'], rule exI [of _ L']) (intro conjI 1 2 3 4 5)
qed

theorem appends_get_consecutive_codes_witness:
  "\<exists>h' L'. run_new 0
       (no_items
         (1 := \<lparr>m_netCode = - 1, m_netname = ''GND'', m_isCurrent = True\<rparr>,
          2 := \<lparr>m_netCode = 7, m_netname = ''VCC'', m_isCurrent = True\<rparr>,
          3 := \<lparr>m_netCode = 3, m_netname = ''CLK'', m_isCurrent = True\<rparr>))
       (map Append [1, 2, 3]) = Inr (h', L')
     \<and> m_netCodes L' = [(0, 0), (1, 1), (2, 2), (3, 3)]
     \<and> map (\<lambda>p. m_netCode (h' p)) [0, 1, 2, 3] = [0, 1, 2, 3]"
proof -
  let ?S = "no_items
         (1 := \<lparr>m_netCode = - 1, m_netname = ''GND'', m_isCurrent = True\<rparr>,
          2 := \<lparr>m_netCode = 7, m_netname = ''VCC'', m_isCurrent = True\<rparr>,
          3 := \<lparr>m_netCode = 3, m_netname = ''CLK'', m_isCurrent = True\<rparr>)"
  have a: "distinct (map (\<lambda>p. m_netname (?S p)) [1, 2, 3])" by simp
  have b: "(0 :: item_ptr) \<notin> set [1, 2, 3]" by simp
  have f: "filter (\<lambda>p. m_netname (?S p) \<noteq> '''') [1, 2, 3] = [1, 2, 3]" by simp
  from appends_get_consecutive_codes [OF a b] obtain h' L'
    where r: "run_new 0 ?S (map Append [1, 2, 3]) = Inr (h', L')"
      and v: "map snd (m_netCodes L') = 0 # filter (\<lambda>p. m_netname (?S p) \<noteq> '''') [1, 2, 3]"
      and k: "map fst (m_netCodes L') = map int [0..<length (m_netCodes L')]"
      and c: "map (\<lambda>p. m_netCode (h' p)) (map snd (m_netCodes L'))
                = map int [0..<length (m_netCodes L')]"
    by (elim exE conjE) (rule that; assumption)
  from v f have v': "map snd (m_netCodes L') = [0, 1, 2, 3]" by (simp only:)
  then have "length (map snd (m_netCodes L')) = 4" by simp
  then have len: "length (m_netCodes L') = 4" by simp
  have up: "map int [0..<4] = [0, 1, 2, 3]" by (simp add: upt_rec)
  from k len up have k': "map fst (m_netCodes L') = [0, 1, 2, 3]" by simp
  have "m_netCodes L' = zip (map fst (m_netCodes L')) (map snd (m_netCodes L'))"
    by (simp add: zip_map_fst_snd)
  with k' v' have codes: "m_netCodes L' = [(0, 0), (1, 1), (2, 2), (3, 3)]" by simp
  from c v' len up have m: "map (\<lambda>p. m_netCode (h' p)) [0, 1, 2, 3] = [0, 1, 2, 3]" by simp
  show ?thesis
    by (rule exI [of _ h'], rule exI [of _ L']) (intro conjI r codes m)
qed

section \<open>The remapper: what \<open>Update\<close> computes\<close>

lemma set_set_insert: "set (set_insert x xs) = insert x (set xs)"
  by (induction xs) auto

lemma sorted_set_insert: "sorted xs \<Longrightarrow> sorted (set_insert x xs)"
  by (induction xs) (auto simp: set_set_insert)

lemma distinct_set_insert: "sorted xs \<Longrightarrow> distinct xs \<Longrightarrow> distinct (set_insert x xs)"
  by (induction xs) (auto simp: set_set_insert)

lemma fold_set_insert:
  "sorted s \<Longrightarrow> distinct s \<Longrightarrow>
     sorted (fold set_insert xs s) \<and> distinct (fold set_insert xs s)
     \<and> set (fold set_insert xs s) = set xs \<union> set s"
  by (induction xs arbitrary: s)
     (auto simp: set_set_insert sorted_set_insert distinct_set_insert)

lemma fold_shapes:
  "sorted s \<Longrightarrow> distinct s \<Longrightarrow>
     sorted (fold (\<lambda>item nets. case item of OTHER_DRAWING \<Rightarrow> nets
                   | PCB_SHAPE c \<Rightarrow> if c > 0 then set_insert c nets else nets) ds s)
   \<and> distinct (fold (\<lambda>item nets. case item of OTHER_DRAWING \<Rightarrow> nets
                   | PCB_SHAPE c \<Rightarrow> if c > 0 then set_insert c nets else nets) ds s)
   \<and> set (fold (\<lambda>item nets. case item of OTHER_DRAWING \<Rightarrow> nets
                   | PCB_SHAPE c \<Rightarrow> if c > 0 then set_insert c nets else nets) ds s)
       = set (shape_codes ds) \<union> set s"
proof (induction ds arbitrary: s)
  case Nil
  then show ?case by simp
next
  case (Cons d ds)
  then show ?case
    by (cases d) (auto simp: set_set_insert sorted_set_insert distinct_set_insert)
qed

lemma fold_pads:
  "sorted s \<Longrightarrow> distinct s \<Longrightarrow>
     sorted (fold (\<lambda>pads nets. fold set_insert pads nets) fs s)
   \<and> distinct (fold (\<lambda>pads nets. fold set_insert pads nets) fs s)
   \<and> set (fold (\<lambda>pads nets. fold set_insert pads nets) fs s) = set (concat fs) \<union> set s"
proof (induction fs arbitrary: s)
  case Nil
  then show ?case by simp
next
  case (Cons f fs)
  from fold_set_insert [OF Cons.prems, of f]
  have f: "sorted (fold set_insert f s)" "distinct (fold set_insert f s)"
    "set (fold set_insert f s) = set f \<union> set s" by auto
  from Cons.IH [OF f(1) f(2)] f(3) show ?case by auto
qed

lemma used_nets_props:
  "sorted (used_nets b) \<and> distinct (used_nets b) \<and> set (used_nets b) = referenced_codes b"
proof -
  define n1 where "n1 = fold set_insert (Zones b) (set_insert 0 [])"
  define n2 where "n2 = fold set_insert (Tracks b) n1"
  define n3 where "n3 = fold (\<lambda>item nets. case item of OTHER_DRAWING \<Rightarrow> nets
                   | PCB_SHAPE c \<Rightarrow> if c > 0 then set_insert c nets else nets) (Drawings b) n2"
  define n4 where "n4 = fold (\<lambda>pads nets. fold set_insert pads nets) (Footprints b) n3"
  have u: "used_nets b = n4"
    by (simp add: used_nets_def n1_def n2_def n3_def n4_def)
  have p1: "sorted n1 \<and> distinct n1 \<and> set n1 = set (Zones b) \<union> {0}"
    unfolding n1_def using fold_set_insert [of "set_insert 0 []" "Zones b"] by simp
  have p2: "sorted n2 \<and> distinct n2 \<and> set n2 = set (Tracks b) \<union> set n1"
    unfolding n2_def using fold_set_insert [of n1 "Tracks b"] p1 by simp
  have p3: "sorted n3 \<and> distinct n3 \<and> set n3 = set (shape_codes (Drawings b)) \<union> set n2"
    unfolding n3_def using fold_shapes [of n2 "Drawings b"] p2 by simp
  have p4: "sorted n4 \<and> distinct n4 \<and> set n4 = set (concat (Footprints b)) \<union> set n3"
    unfolding n4_def using fold_pads [of n3 "Footprints b"] p3 by simp
  show ?thesis
    unfolding u referenced_codes_def using p1 p2 p3 p4 by auto
qed

lemma map_assign_last:
  "\<forall>e \<in> set m. fst e < k \<Longrightarrow> map_assign k v m = m @ [(k, v)]"
  by (induction m) auto

lemma assign_codes_sorted:
  "sorted nets \<Longrightarrow> distinct nets \<Longrightarrow> \<forall>e \<in> set m. \<forall>x \<in> set nets. fst e < x \<Longrightarrow>
     assign_codes nets k m = m @ number_from k nets"
proof (induction nets arbitrary: k m)
  case Nil
  then show ?case by simp
next
  case (Cons x xs)
  have a: "map_assign x k m = m @ [(x, k)]"
    using Cons.prems(3) by (intro map_assign_last) simp
  have "\<forall>e \<in> set (m @ [(x, k)]). \<forall>y \<in> set xs. fst e < y"
    using Cons.prems by (auto simp: less_le)
  with Cons.IH [of "m @ [(x, k)]" "k + 1"] Cons.prems(1,2) a show ?case by simp
qed

lemma Update_eq: "m_netMapping (Update M) = number_from 0 (used_nets (m_board M))"
  using assign_codes_sorted [of "used_nets (m_board M)" "[]" 0] used_nets_props [of "m_board M"]
  by (simp add: Update_def)

lemma map_fst_number_from: "map fst (number_from k xs) = xs"
  by (induction xs arbitrary: k) auto

lemma map_snd_number_from: "map snd (number_from k xs) = map (\<lambda>i. k + int i) [0..<length xs]"
proof (induction xs arbitrary: k)
  case Nil
  then show ?case by simp
next
  case (Cons x xs)
  have "map (\<lambda>i. k + int i) [0..<length (x # xs)]
          = k # map (\<lambda>i. k + int i) (map Suc [0..<length xs])"
    by (simp add: upt_conv_Cons map_Suc_upt del: upt_Suc)
  also have "\<dots> = k # map (\<lambda>i. k + 1 + int i) [0..<length xs]" by simp
  finally show ?case using Cons.IH [of "k + 1"] by simp
qed

lemma map_of_number_from:
  "sorted xs \<Longrightarrow> distinct xs \<Longrightarrow> c \<in> set xs \<Longrightarrow>
     map_of (number_from k xs) c = Some (k + int (card {x \<in> set xs. x < c}))"
proof (induction xs arbitrary: k)
  case Nil
  then show ?case by simp
next
  case (Cons x xs)
  show ?case
  proof (cases "c = x")
    case True
    have "{y \<in> set (x # xs). y < c} = {}"
      using Cons.prems(1) True by auto
    with True show ?thesis by simp
  next
    case False
    with Cons.prems have c: "c \<in> set xs" "x < c" by auto
    have "x \<notin> {y \<in> set xs. y < c}" using Cons.prems(2) by simp
    moreover have "{y \<in> set (x # xs). y < c} = insert x {y \<in> set xs. y < c}"
      using c by auto
    ultimately have "card {y \<in> set (x # xs). y < c} = Suc (card {y \<in> set xs. y < c})"
      by simp
    with Cons.IH [of "k + 1"] Cons.prems c False show ?thesis by simp
  qed
qed

lemma map_of_number_from_None: "c \<notin> set xs \<Longrightarrow> map_of (number_from k xs) c = None"
  by (induction xs arbitrary: k) auto

lemma Translate_referenced:
  assumes "c \<in> referenced_codes (m_board M)"
  shows "map_find (m_netMapping (Update M)) c = Some (Translate (Update M) c)"
    and "Translate (Update M) c = int (card {x \<in> referenced_codes (m_board M). x < c})"
proof -
  let ?xs = "used_nets (m_board M)"
  have p: "sorted ?xs" "distinct ?xs" "set ?xs = referenced_codes (m_board M)"
    using used_nets_props [of "m_board M"] by auto
  have "map_of (number_from 0 ?xs) c = Some (0 + int (card {x \<in> set ?xs. x < c}))"
    using assms p by (intro map_of_number_from) auto
  then have m: "map_find (m_netMapping (Update M)) c
                  = Some (int (card {x \<in> referenced_codes (m_board M). x < c}))"
    by (simp add: map_find_def Update_eq p(3))
  then show "Translate (Update M) c = int (card {x \<in> referenced_codes (m_board M). x < c})"
    by (simp add: Translate_def)
  with m show "map_find (m_netMapping (Update M)) c = Some (Translate (Update M) c)"
    by simp
qed

lemma Translate_unreferenced:
  assumes "c \<notin> referenced_codes (m_board M)"
  shows "map_find (m_netMapping (Update M)) c = None" and "Translate (Update M) c = c"
proof -
  have "c \<notin> set (used_nets (m_board M))" using assms used_nets_props [of "m_board M"] by simp
  then show m: "map_find (m_netMapping (Update M)) c = None"
    by (simp add: map_find_def Update_eq map_of_number_from_None)
  then show "Translate (Update M) c = c" by (simp add: Translate_def)
qed

lemma used_nets_0_5_7:
  assumes "referenced_codes (m_board M) = {0, 5, 7}"
  shows "used_nets (m_board M) = [0, 5, 7]"
proof -
  let ?xs = "used_nets (m_board M)"
  have p: "sorted ?xs" "distinct ?xs" "set ?xs = referenced_codes (m_board M)"
    using used_nets_props [of "m_board M"] by auto
  have "sorted [0, 5, 7 :: int]" "distinct [0, 5, 7 :: int]" by simp_all
  moreover have "set ?xs = set [0, 5, 7 :: int]" using p(3) assms by simp
  ultimately show ?thesis using p(1,2) by (intro sorted_distinct_set_unique)
qed

text \<open>
  Claim C8. After \<open>Update\<close> on a board whose referenced net codes are exactly 0, 5 and 7,
  the mapping is \<open>0 \<rightarrow> 0, 5 \<rightarrow> 1, 7 \<rightarrow> 2\<close>, so \<open>Translate\<close> gives 1 for 5 and 99 for 99.
  For every board and every code: a code that the board references is a key of the mapping
  and \<open>Translate\<close> returns the value stored for it, which is the number of referenced
  codes below it; any other code is not a key and \<open>Translate\<close> returns it unchanged.
\<close>

theorem Update_Translate_0_5_7:
  "(referenced_codes (m_board M) = {0, 5, 7} \<longrightarrow>
      m_netMapping (Update M) = [(0, 0), (5, 1), (7, 2)]
      \<and> Translate (Update M) 5 = 1 \<and> Translate (Update M) 99 = 99)
   \<and> (c \<in> referenced_codes (m_board M) \<longrightarrow>
        map_find (m_netMapping (Update M)) c = Some (Translate (Update M) c)
        \<and> Translate (Update M) c = int (card {x \<in> referenced_codes (m_board M). x < c}))
   \<and> (c \<notin> referenced_codes (m_board M) \<longrightarrow>
        map_find (m_netMapping (Update M)) c = None \<and> Translate (Update M) c = c)"
proof (intro conjI impI)
  assume r: "referenced_codes (m_board M) = {0, 5, 7}"
  show m: "m_netMapping (Update M) = [(0, 0), (5, 1), (7, 2)]"
    by (simp add: Update_eq used_nets_0_5_7 [OF r])
  show "Translate (Update M) 5 = 1"
    by (simp add: Translate_def map_find_def m)
  show "Translate (Update M) 99 = 99"
    by (simp add: Translate_def map_find_def m)
next
  assume "c \<in> referenced_codes (m_board M)"
  then show "map_find (m_netMapping (Update M)) c = Some (Translate (Update M) c)"
    and "Translate (Update M) c = int (card {x \<in> referenced_codes (m_board M). x < c})"
    by (rule Translate_referenced)+
next
  assume "c \<notin> referenced_codes (m_board M)"
  then show "map_find (m_netMapping (Update M)) c = None" and "Translate (Update M) c = c"
    by (rule Translate_unreferenced)+
qed

theorem Update_Translate_0_5_7_witness:
  "referenced_codes
     \<lparr>Zones = [7], Tracks = [5, 5], Drawings = [PCB_SHAPE 0, OTHER_DRAWING, PCB_SHAPE 7],
      Footprints = [[0, 5], [], [7]]\<rparr> = {0, 5, 7}
   \<and> m_netMapping (Update
        \<lparr>m_board = \<lparr>Zones = [7], Tracks = [5, 5],
                    Drawings = [PCB_SHAPE 0, OTHER_DRAWING, PCB_SHAPE 7],
                    Footprints = [[0, 5], [], [7]]\<rparr>,
         m_netMapping = [(3, 3)]\<rparr>) = [(0, 0), (5, 1), (7, 2)]
   \<and> Translate (Update
        \<lparr>m_board = \<lparr>Zones = [7], Tracks = [5, 5],
                    Drawings = [PCB_SHAPE 0, OTHER_DRAWING, PCB_SHAPE 7],
                    Footprints = [[0, 5], [], [7]]\<rparr>,
         m_netMapping = [(3, 3)]\<rparr>) 7 = 2
   \<and> Translate (Update
        \<lparr>m_board = \<lparr>Zones = [7], Tracks = [5, 5],
                    Drawings = [PCB_SHAPE 0, OTHER_DRAWING, PCB_SHAPE 7],
                    Footprints = [[0, 5], [], [7]]\<rparr>,
         m_netMapping = [(3, 3)]\<rparr>) 3 = 3"
proof -
  let ?M = "\<lparr>m_board = \<lparr>Zones = [7], Tracks = [5, 5],
                    Drawings = [PCB_SHAPE 0, OTHER_DRAWING, PCB_SHAPE 7],
                    Footprints = [[0, 5], [], [7]]\<rparr>,
         m_netMapping = [(3, 3)]\<rparr>"
  have r: "referenced_codes (m_board ?M) = {0, 5, 7}"
    by (auto simp: referenced_codes_def)
  have c: "card {x \<in> {0, 5, 7 :: int}. x < 7} = 2"
  proof -
    have "{x \<in> {0, 5, 7 :: int}. x < 7} = {0, 5}" by auto
    then show ?thesis by simp
  qed
  from Update_Translate_0_5_7 [of ?M 7] r c
  have a: "m_netMapping (Update ?M) = [(0, 0), (5, 1), (7, 2)]" "Translate (Update ?M) 7 = 2"
    by simp_all
  from Update_Translate_0_5_7 [of ?M 3] r
  have b: "Translate (Update ?M) 3 = 3" by simp
  from r a b show ?thesis by simp
qed

text \<open>
  Claim C4 says that code 0 maps to 0 for any board contents, and the comment in \<open>Update\<close>
  says the same ("Be sure that the unconnected gets 0 and is mapped as 0"). The codes are
  numbered in ascending order, so a negative code on a track, a zone or a pad (only shapes are
  filtered by \<open>GetNetCode() > 0\<close>) takes the number 0: with one track of net code \<open>-1\<close>
  (the value of \<open>NETINFO_LIST::ORPHANED\<close>) the mapping is \<open>-1 \<rightarrow> 0, 0 \<rightarrow> 1\<close>.
\<close>

theorem Update_negative_code:
  "m_netMapping (Update \<lparr>m_board = \<lparr>Zones = [], Tracks = [- 1], Drawings = [], Footprints = []\<rparr>,
                          m_netMapping = []\<rparr>) = [(- 1, 0), (0, 1)]
   \<and> Translate (Update \<lparr>m_board = \<lparr>Zones = [], Tracks = [- 1], Drawings = [], Footprints = []\<rparr>,
                          m_netMapping = []\<rparr>) 0 = 1"
  by (simp add: Update_def used_nets_def Translate_def map_find_def)

lemma Update_codes_consecutive:
  "map fst (m_netMapping (Update M)) = used_nets (m_board M)"
  "map snd (m_netMapping (Update M)) = map int [0..<card (referenced_codes (m_board M))]"
proof -
  let ?xs = "used_nets (m_board M)"
  have p: "sorted ?xs" "distinct ?xs" "set ?xs = referenced_codes (m_board M)"
    using used_nets_props [of "m_board M"] by auto
  show "map fst (m_netMapping (Update M)) = ?xs"
    by (simp add: Update_eq map_fst_number_from)
  have "card (referenced_codes (m_board M)) = length ?xs"
    using p(2,3) distinct_card [of ?xs] by simp
  then show "map snd (m_netMapping (Update M)) = map int [0..<card (referenced_codes (m_board M))]"
    by (simp add: Update_eq map_snd_number_from)
qed

lemma Update_zero_fixed:
  assumes "\<forall>c \<in> referenced_codes (m_board M). 0 \<le> c"
  shows "Translate (Update M) 0 = 0"
proof -
  have z: "0 \<in> referenced_codes (m_board M)" by (simp add: referenced_codes_def)
  have "{x \<in> referenced_codes (m_board M). x < 0} = {}" using assms by auto
  with Translate_referenced(2) [OF z] show ?thesis by simp
qed

end
